theory Spec2Isabelle
  imports Main "HOL-Library.AList"
begin

section \<open>Shared data\<close>

text \<open>
  Values typed \<open>any\<close> in the source (room and client properties, broadcast messages) are
  JSON-shaped. An optional field is an \<open>option\<close>, with \<open>None\<close> for \<open>undefined\<close>.

  A JavaScript \<open>Map\<close> is an association list in insertion order: \<open>map_of\<close> reads a key,
  \<open>AList.update\<close> overwrites in place or appends, \<open>AList.delete\<close> removes.
\<close>

datatype json = JNull | JBool bool | JNum int | JStr string | JArr "json list"
  | JObj "(string \<times> json) list"

subsection \<open>Plain objects used as dictionaries\<close>

text \<open>
  The object literal \<open>{}\<close> holds its own properties, an association list in creation
  order, and inherits the members of \<open>Object.prototype\<close>. Reading \<open>obj[key]\<close> gives the own
  property, else the inherited member of that name (a function, or the prototype itself for
  \<open>__proto__\<close>: truthy in every case), else \<open>undefined\<close>.
\<close>

definition object_prototype :: "string list" where
  "object_prototype =
     [''constructor'', ''__defineGetter__'', ''__defineSetter__'', ''hasOwnProperty'',
      ''__lookupGetter__'', ''__lookupSetter__'', ''isPrototypeOf'', ''propertyIsEnumerable'',
      ''toString'', ''valueOf'', ''__proto__'', ''toLocaleString'']"

datatype 'a js_member = Own 'a | Inherited string | Missing

definition js_get :: "(string \<times> 'a) list \<Rightarrow> string \<Rightarrow> 'a js_member" where
  "js_get obj key =
     (case map_of obj key of
        Some v \<Rightarrow> Own v
      | None \<Rightarrow> if key \<in> set object_prototype then Inherited key else Missing)"

text \<open>The assignment \<open>obj[key] = v\<close> of an object \<open>v\<close>: under \<open>__proto__\<close> it replaces the
  prototype and creates no own property. No object that is read again is ever assigned
  under that key (the assignments below follow a read that found nothing), so the
  prototype of the objects that are read stays \<open>Object.prototype\<close>.\<close>

definition js_set :: "string \<Rightarrow> 'a \<Rightarrow> (string \<times> 'a) list \<Rightarrow> (string \<times> 'a) list" where
  "js_set key v obj = (if key = ''__proto__'' then obj else AList.update key v obj)"

text \<open>
  \<open>Object.keys\<close> and \<open>Object.values\<close> enumerate the own properties with the array indices
  first, in ascending numeric order, then the other keys in creation order. An array index
  is the canonical decimal form of an integer from 0 to \<open>2\<^sup>3\<^sup>2 - 2\<close>.
\<close>

definition digit_value :: "char \<Rightarrow> nat" where
  "digit_value c = of_char c - 48"

definition decimal_value :: "string \<Rightarrow> nat" where
  "decimal_value key = foldl (\<lambda>n c. 10 * n + digit_value c) 0 key"

definition array_index :: "string \<Rightarrow> bool" where
  "array_index key =
     (key \<noteq> [] \<and> list_all (\<lambda>c. c \<in> set ''0123456789'') key
      \<and> (hd key \<noteq> CHR ''0'' \<or> length key = 1)
      \<and> decimal_value key < 4294967295)"

definition own_keys :: "(string \<times> 'a) list \<Rightarrow> string list" where
  "own_keys obj =
     (let keys = remdups (map fst obj)
      in sort_key decimal_value (filter array_index keys)
         @ filter (\<lambda>key. \<not> array_index key) keys)"

definition own_values :: "(string \<times> 'a) list \<Rightarrow> 'a list" where
  "own_values obj = map (\<lambda>key. the (map_of obj key)) (own_keys obj)"

text \<open>
  A call either returns or throws. \<open>Threw e x\<close> is the exception \<open>e\<close> with the state \<open>x\<close>
  reached when it was thrown.
\<close>

datatype js_error = TypeError

datatype 'a outcome = Returned 'a | Threw js_error 'a

text \<open>\<open>IClientSummary\<close> (client.ts).\<close>

record client_summary =
  cs_id :: string
  cs_properties :: "json option"

section \<open>Discovery (discovery.ts)\<close>

text \<open>\<open>IRoomSummary\<close> (room.ts); \<open>clients\<close> is the \<open>IClientList\<close> dictionary.\<close>

record room_summary =
  rm_id :: string
  rm_publicUrl :: string
  rm_clients :: "(string \<times> client_summary) list"
  rm_properties :: "json option"

text \<open>\<open>IRoomServer\<close> and \<open>IRoomServerPing\<close> (room-server.ts).\<close>

record room_server =
  sv_publicUrl :: string
  sv_clientCount :: int
  sv_rooms :: "(string \<times> room_summary) list"
  sv_lastPing :: int

record room_server_ping =
  pg_publicUrl :: string
  pg_clientCount :: int
  pg_reset :: "bool option"

text \<open>The payload of an \<open>rs.event\<close> message, as \<open>_handleServerEvent\<close> reads it.\<close>

record server_event =
  ev_publicUrl :: string
  ev_roomId :: string
  ev_subject :: string
  ev_properties :: "json option"
  ev_client :: "client_summary option"

text \<open>Events emitted by Discovery to its listeners; an emitted object is logged as it is
  at the moment of the \<open>emit\<close>. \<open>RoomLeftInherited room name\<close> is a \<open>roomLeft\<close> whose second
  argument is the member \<open>name\<close> of \<open>Object.prototype\<close> instead of a client summary.\<close>

datatype d_event =
    NewServer room_server
  | ServerRemoved room_server
  | NewRoom room_summary
  | RoomRemoved room_summary
  | RoomJoined room_summary client_summary
  | RoomLeft room_summary client_summary
  | RoomLeftInherited room_summary string
  | DBroadcast json
  | DStop

text \<open>A pending \<open>nats.request\<close>: its subject, its \<open>max\<close> option and the server record
  object that the reply callback has captured.\<close>

record nats_request =
  rq_subject :: string
  rq_max :: nat
  rq_server :: nat

text \<open>
  The state of a Discovery instance. Server records are objects: \<open>roomServers\<close> maps a
  public url to the address of a record in \<open>servers\<close>, so that a reply callback can still
  write to a record that has left the map. \<open>d_console\<close> is what \<open>console.error\<close> has
  printed, \<open>d_uncaught\<close> the exception that no handler caught, if any.
\<close>

record discovery =
  roomServers :: "(string \<times> nat) list"
  servers :: "nat \<Rightarrow> room_server"
  nextServer :: nat
  serverTimeout :: int
  checkLoopInterval :: bool
  subscriptions :: "string list"
  d_requests :: "nats_request list"
  d_published :: "json list"
  d_emitted :: "d_event list"
  d_console :: "js_error list"
  d_uncaught :: "js_error list"

definition new_discovery :: discovery where
  "new_discovery =
     \<lparr>roomServers = [],
      servers = (\<lambda>_. \<lparr>sv_publicUrl = [], sv_clientCount = 0, sv_rooms = [], sv_lastPing = 0\<rparr>),
      nextServer = 0,
      serverTimeout = 5000,
      checkLoopInterval = True,
      subscriptions = [''ping'', ''broadcast'', ''rs.event'', ''rs.stop''],
      d_requests = [],
      d_published = [],
      d_emitted = [],
      d_console = [],
      d_uncaught = []\<rparr>"

subsection \<open>Mirrored clients and rooms\<close>

definition addNewClient :: "room_summary \<Rightarrow> client_summary \<Rightarrow> room_summary \<times> d_event list" where
  "addNewClient room client =
     (case js_get (rm_clients room) (cs_id client) of
        Missing \<Rightarrow>
          (let room' = room\<lparr>rm_clients := js_set (cs_id client) client (rm_clients room)\<rparr>
           in (room', [RoomJoined room' client]))
      | _ \<Rightarrow> (room, []))"

definition removeClient :: "room_summary \<Rightarrow> string \<Rightarrow> room_summary \<times> d_event list" where
  "removeClient room clientId =
     (case js_get (rm_clients room) clientId of
        Missing \<Rightarrow> (room, [])
      | Own client \<Rightarrow>
          (room\<lparr>rm_clients := AList.delete clientId (rm_clients room)\<rparr>, [RoomLeft room client])
      | Inherited name \<Rightarrow>
          (room\<lparr>rm_clients := AList.delete clientId (rm_clients room)\<rparr>,
           [RoomLeftInherited room name]))"

text \<open>The two \<open>forEach\<close> loops over a room's clients, threading the room and the events.\<close>

fun addClients :: "client_summary list \<Rightarrow> room_summary \<times> d_event list \<Rightarrow> room_summary \<times> d_event list" where
  "addClients [] acc = acc"
| "addClients (client # rest) (room, evs) =
     (case addNewClient room client of (room', evs') \<Rightarrow> addClients rest (room', evs @ evs'))"

fun removeClients :: "string list \<Rightarrow> room_summary \<times> d_event list \<Rightarrow> room_summary \<times> d_event list" where
  "removeClients [] acc = acc"
| "removeClients (clientId # rest) (room, evs) =
     (case removeClient room clientId of (room', evs') \<Rightarrow> removeClients rest (room', evs @ evs'))"

definition addNewRoom :: "room_server \<Rightarrow> room_summary \<Rightarrow> room_server \<times> d_event list" where
  "addNewRoom roomServer room =
     (case js_get (sv_rooms roomServer) (rm_id room) of
        Missing \<Rightarrow>
          (let clients = rm_clients room;
               room0 = room\<lparr>rm_clients := []\<rparr>
           in case addClients (own_values clients) (room0, [NewRoom room0]) of
                (room', evs) \<Rightarrow>
                  (roomServer\<lparr>sv_rooms := js_set (rm_id room) room' (sv_rooms roomServer)\<rparr>,
                   evs))
      | _ \<Rightarrow> (roomServer, []))"

text \<open>In \<open>_removeRoom\<close> an inherited member has no \<open>clients\<close>: \<open>Object.keys(undefined)\<close>
  throws before anything is written.\<close>

definition removeRoom :: "room_server \<Rightarrow> string \<Rightarrow> (room_server \<times> d_event list) outcome" where
  "removeRoom roomServer roomId =
     (case js_get (sv_rooms roomServer) roomId of
        Missing \<Rightarrow> Returned (roomServer, [])
      | Inherited name \<Rightarrow> Threw TypeError (roomServer, [])
      | Own room \<Rightarrow>
          (case removeClients (own_keys (rm_clients room)) (room, []) of
             (room', evs) \<Rightarrow>
               Returned (roomServer\<lparr>sv_rooms := AList.delete roomId (sv_rooms roomServer)\<rparr>,
                         evs @ [RoomRemoved room'])))"

subsection \<open>Server records\<close>

text \<open>Writing back a record object and logging what the call emitted.\<close>

definition put_server :: "nat \<Rightarrow> room_server \<times> d_event list \<Rightarrow> discovery \<Rightarrow> discovery" where
  "put_server ref res d =
     d\<lparr>servers := (servers d)(ref := fst res), d_emitted := d_emitted d @ snd res\<rparr>"

definition put_room :: "nat \<Rightarrow> string \<Rightarrow> room_summary \<times> d_event list \<Rightarrow> discovery \<Rightarrow> discovery" where
  "put_room ref key res d =
     put_server ref
       ((servers d ref)\<lparr>sv_rooms := AList.update key (fst res) (sv_rooms (servers d ref))\<rparr>, snd res) d"

text \<open>The \<open>forEach\<close> of \<open>_removeServer\<close>: an exception ends the loop where it is thrown.\<close>

fun removeRooms ::
  "string list \<Rightarrow> room_server \<times> d_event list \<Rightarrow> (room_server \<times> d_event list) outcome" where
  "removeRooms [] acc = Returned acc"
| "removeRooms (roomId # rest) (roomServer, evs) =
     (case removeRoom roomServer roomId of
        Returned (roomServer', evs') \<Rightarrow> removeRooms rest (roomServer', evs @ evs')
      | Threw e (roomServer', evs') \<Rightarrow> Threw e (roomServer', evs @ evs'))"

definition removeServer :: "nat \<Rightarrow> discovery \<Rightarrow> discovery outcome" where
  "removeServer ref d =
     (let roomServer = servers d ref
      in case removeRooms (own_keys (sv_rooms roomServer)) (roomServer, []) of
           Threw e res \<Rightarrow> Threw e (put_server ref res d)
         | Returned res \<Rightarrow>
             (let d1 = put_server ref res d;
                  d2 = d1\<lparr>roomServers := AList.delete (sv_publicUrl roomServer) (roomServers d1)\<rparr>
              in Returned (d2\<lparr>d_emitted := d_emitted d2 @ [ServerRemoved (servers d2 ref)]\<rparr>)))"

definition removeServerByUrl :: "string \<Rightarrow> discovery \<Rightarrow> discovery outcome" where
  "removeServerByUrl publicUrl d =
     (case map_of (roomServers d) publicUrl of
        None \<Rightarrow> Returned d
      | Some ref \<Rightarrow> removeServer ref d)"

text \<open>\<open>_addNewServer\<close> receives a fresh object literal: it is allocated at \<open>nextServer\<close>.\<close>

definition addNewServer :: "room_server \<Rightarrow> discovery \<Rightarrow> discovery" where
  "addNewServer server d =
     (let ref = nextServer d
      in d\<lparr>servers := (servers d)(ref := server),
            nextServer := Suc ref,
            roomServers := AList.update (sv_publicUrl server) ref (roomServers d),
            d_emitted := d_emitted d @ [NewServer server],
            d_requests := d_requests d @
              [\<lparr>rq_subject = ''rooms.'' @ sv_publicUrl server, rq_max = 1, rq_server = ref\<rparr>]\<rparr>)"

text \<open>The callback of the \<open>rooms.<publicUrl>\<close> request, run on the reply.\<close>

fun roomsCallback :: "nat \<Rightarrow> room_summary list \<Rightarrow> discovery \<Rightarrow> discovery" where
  "roomsCallback ref [] d = d"
| "roomsCallback ref (room # rest) d =
     roomsCallback ref rest (put_server ref (addNewRoom (servers d ref) room) d)"

definition receiveServerPing :: "int \<Rightarrow> room_server_ping \<Rightarrow> discovery \<Rightarrow> discovery" where
  "receiveServerPing now server d =
     (let d1 = (if pg_reset server = Some True
                then d\<lparr>roomServers := AList.delete (pg_publicUrl server) (roomServers d)\<rparr>
                else d)
      in case map_of (roomServers d1) (pg_publicUrl server) of
           Some ref \<Rightarrow>
             d1\<lparr>servers := (servers d1)
                  (ref := (servers d1 ref)\<lparr>sv_clientCount := pg_clientCount server,
                                            sv_lastPing := now\<rparr>)\<rparr>
         | None \<Rightarrow>
             addNewServer
               \<lparr>sv_publicUrl = pg_publicUrl server,
                sv_clientCount = pg_clientCount server,
                sv_rooms = [],
                sv_lastPing = now\<rparr> d1)"

text \<open>
  \<open>_handleServerEvent\<close>. When \<open>roomServer.rooms[event.roomId]\<close> is an inherited member, it is
  truthy and has neither \<open>id\<close> nor \<open>clients\<close>: \<open>roomRemoved\<close> calls
  \<open>_removeRoom(roomServer, undefined)\<close>, which reads the key \<open>"undefined"\<close>; \<open>roomJoined\<close> and
  \<open>roomLeft\<close> throw on \<open>room.clients[...]\<close> (or before, on \<open>event.client.id\<close>). The same
  \<open>TypeError\<close> is thrown when \<open>event.client\<close> is undefined.
\<close>

definition lift_server :: "nat \<Rightarrow> discovery \<Rightarrow> (room_server \<times> d_event list) outcome \<Rightarrow> discovery outcome" where
  "lift_server ref d res =
     (case res of
        Returned r \<Rightarrow> Returned (put_server ref r d)
      | Threw e r \<Rightarrow> Threw e (put_server ref r d))"

definition handleServerEvent :: "server_event \<Rightarrow> discovery \<Rightarrow> discovery outcome" where
  "handleServerEvent event d =
     (case map_of (roomServers d) (ev_publicUrl event) of
        None \<Rightarrow> Returned d
      | Some ref \<Rightarrow>
          (let roomServer = servers d ref
           in if ev_subject event = ''newRoom''
              then Returned (put_server ref
                     (addNewRoom roomServer
                        \<lparr>rm_id = ev_roomId event,
                         rm_publicUrl = ev_publicUrl event,
                         rm_clients = [],
                         rm_properties = ev_properties event\<rparr>) d)
              else
                (case js_get (sv_rooms roomServer) (ev_roomId event) of
                   Missing \<Rightarrow> Returned d
                 | Own room \<Rightarrow>
                     if ev_subject event = ''roomRemoved''
                     then lift_server ref d (removeRoom roomServer (rm_id room))
                     else if ev_subject event = ''roomJoined''
                     then (case ev_client event of
                             None \<Rightarrow> Threw TypeError d
                           | Some client \<Rightarrow>
                               Returned (put_room ref (ev_roomId event) (addNewClient room client) d))
                     else if ev_subject event = ''roomLeft''
                     then (case ev_client event of
                             None \<Rightarrow> Threw TypeError d
                           | Some client \<Rightarrow>
                               Returned (put_room ref (ev_roomId event)
                                           (removeClient room (cs_id client)) d))
                     else Returned d
                 | Inherited name \<Rightarrow>
                     if ev_subject event = ''roomRemoved''
                     then lift_server ref d (removeRoom roomServer ''undefined'')
                     else if ev_subject event = ''roomJoined'' \<or> ev_subject event = ''roomLeft''
                     then Threw TypeError d
                     else Returned d)))"

text \<open>\<open>_serverCheckLoop\<close>: \<open>Map.forEach\<close> visits the entries still present when reached.\<close>

fun checkServers :: "int \<Rightarrow> (string \<times> nat) list \<Rightarrow> discovery \<Rightarrow> discovery outcome" where
  "checkServers now [] d = Returned d"
| "checkServers now ((url, ref) # rest) d =
     (if map_of (roomServers d) url = Some ref
         \<and> sv_lastPing (servers d ref) + serverTimeout d < now
      then (case removeServer ref d of
              Returned d' \<Rightarrow> checkServers now rest d'
            | Threw e d' \<Rightarrow> Threw e d')
      else checkServers now rest d)"

definition serverCheckLoop :: "int \<Rightarrow> discovery \<Rightarrow> discovery outcome" where
  "serverCheckLoop now d = checkServers now (roomServers d) d"

definition getClientCount :: "discovery \<Rightarrow> string \<Rightarrow> int option" where
  "getClientCount d publicUrl =
     (case map_of (roomServers d) publicUrl of
        None \<Rightarrow> None
      | Some ref \<Rightarrow> Some (sv_clientCount (servers d ref)))"

definition d_stop :: "discovery \<Rightarrow> discovery" where
  "d_stop d =
     (if \<not> checkLoopInterval d then d
      else d\<lparr>subscriptions := [], checkLoopInterval := False, d_emitted := d_emitted d @ [DStop]\<rparr>)"

subsection \<open>What the bus and the timers deliver\<close>

text \<open>
  \<open>_subscribe\<close> wraps every callback in \<open>try/catch\<close>: an exception is printed with
  \<open>console.error\<close> and the subscription stays, in the state reached at the throw.
\<close>

definition subscribed :: "discovery outcome \<Rightarrow> discovery" where
  "subscribed res =
     (case res of
        Returned d' \<Rightarrow> d'
      | Threw e d' \<Rightarrow> d'\<lparr>d_console := d_console d' @ [e]\<rparr>)"

definition on_rs_event :: "server_event \<Rightarrow> discovery \<Rightarrow> discovery" where
  "on_rs_event event d = subscribed (handleServerEvent event d)"

definition on_rs_stop :: "string \<Rightarrow> discovery \<Rightarrow> discovery" where
  "on_rs_stop publicUrl d = subscribed (removeServerByUrl publicUrl d)"

text \<open>The callback of \<open>setInterval\<close> has no handler around it: an exception of the check
  loop is uncaught and ends the process.\<close>

definition on_check_tick :: "int \<Rightarrow> discovery \<Rightarrow> discovery" where
  "on_check_tick now d =
     (case serverCheckLoop now d of
        Returned d' \<Rightarrow> d'
      | Threw e d' \<Rightarrow> d'\<lparr>d_uncaught := d_uncaught d' @ [e]\<rparr>)"

text \<open>A reply to the \<open>n\<close>-th pending request; \<open>max: 1\<close> drops the request after it. The
  reply is the list that \<open>Object.values\<close> gives of the room list received.\<close>

definition on_rooms_reply :: "nat \<Rightarrow> room_summary list \<Rightarrow> discovery \<Rightarrow> discovery" where
  "on_rooms_reply n rooms d =
     (if n < length (d_requests d)
      then roomsCallback (rq_server (d_requests d ! n)) rooms
             (d\<lparr>d_requests := take n (d_requests d) @ drop (Suc n) (d_requests d)\<rparr>)
      else d)"

datatype d_input =
    BusPing int room_server_ping
  | BusBroadcast json
  | BusRsEvent server_event
  | BusRsStop string
  | RoomsReply nat "room_summary list"
  | CheckTick int
  | CallStop

fun d_deliver :: "discovery \<Rightarrow> d_input \<Rightarrow> discovery" where
  "d_deliver d (BusPing now server) =
     (if ''ping'' \<in> set (subscriptions d) then receiveServerPing now server d else d)"
| "d_deliver d (BusBroadcast message) =
     (if ''broadcast'' \<in> set (subscriptions d)
      then d\<lparr>d_emitted := d_emitted d @ [DBroadcast message]\<rparr> else d)"
| "d_deliver d (BusRsEvent event) =
     (if ''rs.event'' \<in> set (subscriptions d) then on_rs_event event d else d)"
| "d_deliver d (BusRsStop publicUrl) =
     (if ''rs.stop'' \<in> set (subscriptions d) then on_rs_stop publicUrl d else d)"
| "d_deliver d (RoomsReply n rooms) = on_rooms_reply n rooms d"
| "d_deliver d (CheckTick now) = (if checkLoopInterval d then on_check_tick now d else d)"
| "d_deliver d CallStop = d_stop d"

text \<open>Nothing is delivered to a process that an uncaught exception has ended.\<close>

definition d_step :: "discovery \<Rightarrow> d_input \<Rightarrow> discovery" where
  "d_step d input = (if d_uncaught d = [] then d_deliver d input else d)"

definition d_run :: "d_input list \<Rightarrow> discovery" where
  "d_run inputs = foldl d_step new_discovery inputs"

section \<open>Client, Room and RoomServer (client.ts, room.ts, room-server.ts)\<close>

text \<open>
  The WebSocket of the \<open>ws\<close> library, as far as the server reads and drives it: its
  \<open>readyState\<close>, the calls the server has made on it, and the listeners the server has
  attached. \<open>close()\<close> and \<open>terminate()\<close> leave the socket in a state that \<open>_isClosing\<close>
  reports as closing.
\<close>

datatype ready_state = CONNECTING | OPEN | CLOSING | CLOSED

fun ready_num :: "ready_state \<Rightarrow> nat" where
  "ready_num CONNECTING = 0"
| "ready_num OPEN = 1"
| "ready_num CLOSING = 2"
| "ready_num CLOSED = 3"

datatype socket_call = SockSend json | SockPing | SockClose | SockTerminate

text \<open>
  \<open>sk_onMessageOnce\<close>: the server's \<open>once('message')\<close> handler of \<open>_handleClient\<close>;
  \<open>sk_clientListeners\<close>: the \<open>message\<close>, \<open>pong\<close> and \<open>error\<close> listeners of the Client
  constructor; \<open>sk_onCloseOnce\<close>: the server's \<open>once('close')\<close> handler of
  \<open>_connectClient\<close>, with the room object its closure holds (the client it holds is the one
  built on this socket).
\<close>

record socket =
  readyState :: ready_state
  sk_calls :: "socket_call list"
  sk_onMessageOnce :: bool
  sk_clientListeners :: bool
  sk_onCloseOnce :: "nat option"

text \<open>A Client object; it is addressed by the handle of its socket.\<close>

record client =
  c_id :: string
  c_properties :: "json option"
  c_missedPings :: nat

text \<open>\<open>IRoomOptions\<close>: every field is optional.\<close>

record room_options =
  pingInterval :: "int option"
  missedPingsLimit :: "int option"
  keepAlive :: "bool option"

datatype room_event = Joined nat | Left nat | Terminated

text \<open>
  A Room object. \<open>r_notifyListeners\<close> and \<open>r_terminatedListener\<close> are the listeners that
  \<open>_createRoom\<close> attaches (\<open>joined\<close>/\<open>left\<close>, and \<open>terminated\<close>); \<open>r_emitted\<close> logs every
  \<open>emit\<close> of the room.
\<close>

record room =
  r_publicUrl :: string
  r_id :: string
  r_properties :: "json option"
  r_options :: room_options
  r_clients :: "(string \<times> nat) list"
  r_pingInterval :: bool
  r_emitted :: "room_event list"
  r_notifyListeners :: bool
  r_terminatedListener :: bool

text \<open>\<open>ITokenOptions\<close> (discovery.ts), also the payload that \<open>jwt.verify\<close> returns.\<close>

record token_options =
  t_publicUrl :: string
  t_roomId :: string
  t_roomProperties :: "json option"
  t_clientId :: string
  t_clientProperties :: "json option"
  t_joinOnly :: "bool option"
  t_expiresIn :: "string option"

record room_server_options =
  o_syncRooms :: "bool option"
  o_syncClients :: "bool option"
  o_roomOptions :: "room_options option"

datatype bus_msg =
    PubPing room_server_ping
  | PubRsEvent server_event
  | PubRsStop string
  | PubRooms string "(string \<times> room_summary) list"

datatype rs_event = RsNewRoom nat | RsRoomRemoved nat | RsBroadcast json | RsStop

text \<open>
  The state of a RoomServer process: the server's fields, and the stores of the Room,
  socket and Client objects it has created, which closures and maps refer to by address.
\<close>

record rs =
  rs_publicUrl :: string
  rs_syncRooms :: bool
  rs_syncClients :: bool
  rs_roomOptions :: room_options
  rs_tokenSecret :: string
  rs_clientCount :: int
  rs_rooms :: "(string \<times> nat) list"
  roomObjs :: "nat \<Rightarrow> room"
  nextRoom :: nat
  sockets :: "nat \<Rightarrow> socket"
  nextSocket :: nat
  clientObjs :: "nat \<Rightarrow> client"
  rs_published :: "bus_msg list"
  rs_emitted :: "rs_event list"
  rs_pingInterval :: bool
  rs_listening :: bool

subsection \<open>Object stores\<close>

definition upd_room :: "nat \<Rightarrow> (room \<Rightarrow> room) \<Rightarrow> rs \<Rightarrow> rs" where
  "upd_room r f s = s\<lparr>roomObjs := (roomObjs s)(r := f (roomObjs s r))\<rparr>"

definition upd_socket :: "nat \<Rightarrow> (socket \<Rightarrow> socket) \<Rightarrow> rs \<Rightarrow> rs" where
  "upd_socket k f s = s\<lparr>sockets := (sockets s)(k := f (sockets s k))\<rparr>"

definition upd_client :: "nat \<Rightarrow> (client \<Rightarrow> client) \<Rightarrow> rs \<Rightarrow> rs" where
  "upd_client c f s = s\<lparr>clientObjs := (clientObjs s)(c := f (clientObjs s c))\<rparr>"

subsection \<open>The socket\<close>

definition socket_send :: "nat \<Rightarrow> json \<Rightarrow> rs \<Rightarrow> rs" where
  "socket_send k message = upd_socket k (\<lambda>sk. sk\<lparr>sk_calls := sk_calls sk @ [SockSend message]\<rparr>)"

definition socket_ping :: "nat \<Rightarrow> rs \<Rightarrow> rs" where
  "socket_ping k = upd_socket k (\<lambda>sk. sk\<lparr>sk_calls := sk_calls sk @ [SockPing]\<rparr>)"

definition socket_close :: "nat \<Rightarrow> rs \<Rightarrow> rs" where
  "socket_close k =
     upd_socket k (\<lambda>sk. sk\<lparr>sk_calls := sk_calls sk @ [SockClose],
                            readyState := (if readyState sk = CLOSED then CLOSED else CLOSING)\<rparr>)"

definition socket_terminate :: "nat \<Rightarrow> rs \<Rightarrow> rs" where
  "socket_terminate k =
     upd_socket k (\<lambda>sk. sk\<lparr>sk_calls := sk_calls sk @ [SockTerminate],
                            readyState := (if readyState sk = CLOSED then CLOSED else CLOSING)\<rparr>)"

definition socket_removeAllListeners :: "nat \<Rightarrow> rs \<Rightarrow> rs" where
  "socket_removeAllListeners k =
     upd_socket k (\<lambda>sk. sk\<lparr>sk_onMessageOnce := False, sk_clientListeners := False,
                            sk_onCloseOnce := None\<rparr>)"

subsection \<open>Client\<close>

definition isClosing :: "rs \<Rightarrow> nat \<Rightarrow> bool" where
  "isClosing s c = (ready_num (readyState (sockets s c)) \<ge> ready_num CLOSING)"

definition summary :: "client \<Rightarrow> client_summary" where
  "summary cl = \<lparr>cs_id = c_id cl, cs_properties = c_properties cl\<rparr>"

definition new_client :: "nat \<Rightarrow> string \<Rightarrow> json option \<Rightarrow> rs \<Rightarrow> rs" where
  "new_client k ident properties s =
     upd_socket k (\<lambda>sk. sk\<lparr>sk_clientListeners := True\<rparr>)
       (s\<lparr>clientObjs := (clientObjs s)
            (k := \<lparr>c_id = ident, c_properties = properties, c_missedPings = 0\<rparr>)\<rparr>)"

definition client_removeAllListeners :: "nat \<Rightarrow> rs \<Rightarrow> rs" where
  "client_removeAllListeners c = socket_removeAllListeners c"

subsection \<open>Room\<close>

definition defaults_room :: "room_options \<Rightarrow> room_options" where
  "defaults_room options =
     \<lparr>pingInterval = pingInterval options,
      missedPingsLimit = (case missedPingsLimit options of None \<Rightarrow> Some 1 | Some n \<Rightarrow> Some n),
      keepAlive = (case keepAlive options of None \<Rightarrow> Some False | Some b \<Rightarrow> Some b)\<rparr>"

definition new_room :: "string \<Rightarrow> string \<Rightarrow> json option \<Rightarrow> room_options \<Rightarrow> room" where
  "new_room publicUrl ident properties options =
     \<lparr>r_publicUrl = publicUrl,
      r_id = ident,
      r_properties = properties,
      r_options = defaults_room options,
      r_clients = [],
      r_pingInterval =
        (case pingInterval (defaults_room options) of None \<Rightarrow> False | Some n \<Rightarrow> n \<noteq> 0),
      r_emitted = [],
      r_notifyListeners = False,
      r_terminatedListener = False\<rparr>"

definition room_clientCount :: "room \<Rightarrow> nat" where
  "room_clientCount rm = length (r_clients rm)"

definition room_keepAlive :: "room \<Rightarrow> bool" where
  "room_keepAlive rm = (keepAlive (r_options rm) = Some True)"

definition isEmpty :: "room \<Rightarrow> bool" where
  "isEmpty rm = (room_clientCount rm = 0)"

definition hasClient :: "room \<Rightarrow> string \<Rightarrow> bool" where
  "hasClient rm clientId = (map_of (r_clients rm) clientId \<noteq> None)"

definition clearPingInterval :: "nat \<Rightarrow> rs \<Rightarrow> rs" where
  "clearPingInterval r s =
     (if r_pingInterval (roomObjs s r) then upd_room r (\<lambda>rm. rm\<lparr>r_pingInterval := False\<rparr>) s else s)"

definition room_removeAllListeners :: "nat \<Rightarrow> rs \<Rightarrow> rs" where
  "room_removeAllListeners r =
     upd_room r (\<lambda>rm. rm\<lparr>r_notifyListeners := False, r_terminatedListener := False\<rparr>)"

subsection \<open>RoomServer: notifications and room removal\<close>

definition notify :: "nat \<Rightarrow> string \<Rightarrow> json option \<Rightarrow> client_summary option \<Rightarrow> rs \<Rightarrow> rs" where
  "notify r subject properties cl s =
     s\<lparr>rs_published := rs_published s @
          [PubRsEvent \<lparr>ev_publicUrl = rs_publicUrl s, ev_roomId = r_id (roomObjs s r),
                       ev_subject = subject, ev_properties = properties, ev_client = cl\<rparr>]\<rparr>"

definition rs_removeRoom :: "nat \<Rightarrow> rs \<Rightarrow> rs" where
  "rs_removeRoom r s =
     (if map_of (rs_rooms s) (r_id (roomObjs s r)) = None then s
      else
        (let s1 = clearPingInterval r s;
             s2 = s1\<lparr>rs_emitted := rs_emitted s1 @ [RsRoomRemoved r]\<rparr>;
             s3 = (if rs_syncRooms s2 then notify r ''roomRemoved'' None None s2 else s2);
             s4 = room_removeAllListeners r s3
         in s4\<lparr>rs_rooms := AList.delete (r_id (roomObjs s4 r)) (rs_rooms s4)\<rparr>))"

text \<open>\<open>room.emit\<close>: the event is logged, then the server's listeners for it run.\<close>

definition room_emit :: "nat \<Rightarrow> room_event \<Rightarrow> rs \<Rightarrow> rs" where
  "room_emit r ev s =
     (let s1 = upd_room r (\<lambda>rm. rm\<lparr>r_emitted := r_emitted rm @ [ev]\<rparr>) s
      in case ev of
           Joined c \<Rightarrow>
             if r_notifyListeners (roomObjs s1 r)
             then notify r ''roomJoined'' None (Some (summary (clientObjs s1 c))) s1 else s1
         | Left c \<Rightarrow>
             if r_notifyListeners (roomObjs s1 r)
             then notify r ''roomLeft'' None (Some (summary (clientObjs s1 c))) s1 else s1
         | Terminated \<Rightarrow>
             if r_terminatedListener (roomObjs s1 r) then rs_removeRoom r s1 else s1)"

subsection \<open>Leaving a room and closing a socket\<close>

text \<open>
  \<open>Room.leave\<close> disconnects the client, \<open>Client.disconnect\<close> emits \<open>close\<close> on the
  socket, the server's \<open>close\<close> handler runs \<open>_disconnectClient\<close>, which calls \<open>Room.leave\<close>
  again: the four are mutually recursive, as in the source. A \<open>once\<close> handler is removed
  before it runs.
\<close>

definition close_rank :: "rs \<Rightarrow> nat \<Rightarrow> nat" where
  "close_rank s c =
     (if isClosing s c then 0 else 2) + (if sk_onCloseOnce (sockets s c) = None then 0 else 1)"

function room_leave :: "nat \<Rightarrow> nat \<Rightarrow> rs \<Rightarrow> rs"
  and client_disconnect :: "nat \<Rightarrow> rs \<Rightarrow> rs"
  and socket_emit_close :: "nat \<Rightarrow> rs \<Rightarrow> rs"
  and disconnectClient :: "nat \<Rightarrow> nat \<Rightarrow> rs \<Rightarrow> rs"
where
  "room_leave r c s =
     (if hasClient (roomObjs s r) (c_id (clientObjs s c))
      then
        (let s1 = upd_room r (\<lambda>rm. rm\<lparr>r_clients := AList.delete (c_id (clientObjs s c)) (r_clients rm)\<rparr>) s;
             s2 = room_emit r (Left c) s1
         in client_disconnect c s2)
      else s)"
| "client_disconnect c s =
     client_removeAllListeners c
       (if \<not> isClosing s c then socket_emit_close c (socket_close c s) else s)"
| "socket_emit_close k s =
     (case sk_onCloseOnce (sockets s k) of
        None \<Rightarrow> s
      | Some r \<Rightarrow> disconnectClient k r (upd_socket k (\<lambda>sk. sk\<lparr>sk_onCloseOnce := None\<rparr>) s))"
| "disconnectClient c r s =
     (let s1 = room_leave r c s;
          s2 = s1\<lparr>rs_clientCount := rs_clientCount s1 - 1\<rparr>
      in if isEmpty (roomObjs s2 r) \<and> \<not> room_keepAlive (roomObjs s2 r)
         then rs_removeRoom r s2 else s2)"
  by pat_completeness auto

termination
proof (relation "measure (\<lambda>x. case x of
          Inl (Inl (r, c, s)) \<Rightarrow> 4 * close_rank s c + 2
        | Inl (Inr (c, s)) \<Rightarrow> 4 * close_rank s c + 1
        | Inr (Inl (k, s)) \<Rightarrow> 4 * close_rank s k
        | Inr (Inr (c, r, s)) \<Rightarrow> 4 * close_rank s c + 3)", goal_cases)
  case 1
  show ?case by simp
next
  case (2 r c s s1 s2)
  have "sockets s2 = sockets s"
    using 2 by (simp add: room_emit_def Let_def notify_def upd_room_def)
  then show ?case
    by (simp add: close_rank_def isClosing_def)
next
  case (3 c s)
  then show ?case
    by (simp add: close_rank_def isClosing_def socket_close_def upd_socket_def)
next
  case (4 k s r)
  then show ?case
    by (simp add: close_rank_def isClosing_def upd_socket_def)
next
  case (5 c r s)
  show ?case by simp
qed

subsection \<open>Client: forced close and heartbeat\<close>

definition client_terminate :: "nat \<Rightarrow> rs \<Rightarrow> rs" where
  "client_terminate c s =
     client_removeAllListeners c
       (if \<not> isClosing s c then socket_emit_close c (socket_terminate c s) else s)"

definition client_ping :: "nat \<Rightarrow> int option \<Rightarrow> rs \<Rightarrow> rs" where
  "client_ping c missedLimit s =
     (if \<not> isClosing s c
      then
        (if (case missedLimit of None \<Rightarrow> False
             | Some limit \<Rightarrow> int (c_missedPings (clientObjs s c)) \<ge> limit)
         then client_terminate c s
         else socket_ping c (upd_client c (\<lambda>cl. cl\<lparr>c_missedPings := c_missedPings cl + 1\<rparr>) s))
      else s)"

text \<open>The \<open>pong\<close> listener of the Client constructor.\<close>

definition client_on_pong :: "nat \<Rightarrow> rs \<Rightarrow> rs" where
  "client_on_pong c = upd_client c (\<lambda>cl. cl\<lparr>c_missedPings := 0\<rparr>)"

subsection \<open>Room: membership, heartbeat, teardown\<close>

text \<open>\<open>Map.forEach\<close> over the clients of a room: an entry is visited if it is still in
  the map when its turn comes.\<close>

fun forEach_client :: "(nat \<Rightarrow> rs \<Rightarrow> rs) \<Rightarrow> nat \<Rightarrow> (string \<times> nat) list \<Rightarrow> rs \<Rightarrow> rs" where
  "forEach_client f r [] s = s"
| "forEach_client f r ((clientId, c) # rest) s =
     forEach_client f r rest
       (if map_of (r_clients (roomObjs s r)) clientId = Some c then f c s else s)"

definition room_join :: "nat \<Rightarrow> nat \<Rightarrow> rs \<Rightarrow> rs" where
  "room_join r c s =
     (if \<not> hasClient (roomObjs s r) (c_id (clientObjs s c))
      then room_emit r (Joined c)
             (upd_room r (\<lambda>rm. rm\<lparr>r_clients := AList.update (c_id (clientObjs s c)) c (r_clients rm)\<rparr>) s)
      else s)"

definition room_terminate :: "nat \<Rightarrow> rs \<Rightarrow> rs" where
  "room_terminate r s =
     room_emit r Terminated (forEach_client client_disconnect r (r_clients (roomObjs s r)) s)"

definition pingClients :: "nat \<Rightarrow> rs \<Rightarrow> rs" where
  "pingClients r s =
     forEach_client (\<lambda>c s'. client_ping c (missedPingsLimit (r_options (roomObjs s' r))) s') r
       (r_clients (roomObjs s r)) s"

text \<open>The \<open>clients\<close> and \<open>summary\<close> getters; \<open>clients\<close> fills a new plain object.\<close>

definition room_clients :: "rs \<Rightarrow> room \<Rightarrow> (string \<times> client_summary) list" where
  "room_clients s rm =
     foldl (\<lambda>list (clientId, c). js_set (c_id (clientObjs s c)) (summary (clientObjs s c)) list)
       [] (r_clients rm)"

definition room_summary_of :: "room \<Rightarrow> room_summary" where
  "room_summary_of rm =
     \<lparr>rm_id = r_id rm, rm_publicUrl = r_publicUrl rm, rm_clients = [],
      rm_properties = r_properties rm\<rparr>"

subsection \<open>RoomServer\<close>

definition new_room_server :: "string \<Rightarrow> string \<Rightarrow> room_server_options \<Rightarrow> rs" where
  "new_room_server publicUrl secret options =
     \<lparr>rs_publicUrl = publicUrl,
      rs_syncRooms = (case o_syncRooms options of None \<Rightarrow> True | Some b \<Rightarrow> b),
      rs_syncClients = (case o_syncClients options of None \<Rightarrow> True | Some b \<Rightarrow> b),
      rs_roomOptions =
        defaults_room (case o_roomOptions options of
                         None \<Rightarrow> \<lparr>pingInterval = None, missedPingsLimit = None, keepAlive = None\<rparr>
                       | Some ro \<Rightarrow> ro),
      rs_tokenSecret = secret,
      rs_clientCount = 0,
      rs_rooms = [],
      roomObjs = (\<lambda>_. new_room publicUrl [] None
                    \<lparr>pingInterval = None, missedPingsLimit = None, keepAlive = None\<rparr>),
      nextRoom = 0,
      sockets = (\<lambda>_. \<lparr>readyState = OPEN, sk_calls = [], sk_onMessageOnce = False,
                         sk_clientListeners = False, sk_onCloseOnce = None\<rparr>),
      nextSocket = 0,
      clientObjs = (\<lambda>_. \<lparr>c_id = [], c_properties = None, c_missedPings = 0\<rparr>),
      rs_published =
        [PubPing \<lparr>pg_publicUrl = publicUrl, pg_clientCount = 0, pg_reset = Some True\<rparr>],
      rs_emitted = [],
      rs_pingInterval = True,
      rs_listening = True\<rparr>"

definition createRoom :: "string \<Rightarrow> json option \<Rightarrow> rs \<Rightarrow> nat \<times> rs" where
  "createRoom roomId properties s =
     (let r = nextRoom s;
          s1 = s\<lparr>roomObjs := (roomObjs s)
                    (r := new_room (rs_publicUrl s) roomId properties (rs_roomOptions s)),
                nextRoom := Suc r\<rparr>;
          s2 = s1\<lparr>rs_emitted := rs_emitted s1 @ [RsNewRoom r]\<rparr>;
          s3 = (if rs_syncRooms s2
                then
                  (let s' = notify r ''newRoom'' (r_properties (roomObjs s2 r)) None s2
                   in if rs_syncClients s'
                      then upd_room r (\<lambda>rm. rm\<lparr>r_notifyListeners := True\<rparr>) s' else s')
                else s2);
          s4 = s3\<lparr>rs_rooms := AList.update roomId r (rs_rooms s3)\<rparr>
      in (r, upd_room r (\<lambda>rm. rm\<lparr>r_terminatedListener := True\<rparr>) s4))"

definition getRoom :: "string \<Rightarrow> json option \<Rightarrow> rs \<Rightarrow> nat \<times> rs" where
  "getRoom roomId properties s =
     (case map_of (rs_rooms s) roomId of
        Some r \<Rightarrow> (r, s)
      | None \<Rightarrow> createRoom roomId properties s)"

text \<open>A \<open>throw new Error(message)\<close> is \<open>Inl\<close> of the message, with the state reached
  when it is thrown.\<close>

definition connectClient :: "nat \<Rightarrow> token_options \<Rightarrow> rs \<Rightarrow> (string \<times> rs) + rs" where
  "connectClient k token s =
     (case getRoom (t_roomId token) (t_roomProperties token) s of
        (r, s1) \<Rightarrow>
          if hasClient (roomObjs s1 r) (t_clientId token)
          then Inl (''You are already connected to this room.'', s1)
          else
            (let s2 = new_client k (t_clientId token) (t_clientProperties token) s1;
                 s3 = room_join r k s2;
                 s4 = s3\<lparr>rs_clientCount := rs_clientCount s3 + 1\<rparr>
             in Inr (upd_socket k (\<lambda>sk. sk\<lparr>sk_onCloseOnce := Some r\<rparr>) s4)))"

text \<open>
  \<open>jwt.verify\<close> of the jsonwebtoken library is a parameter: given the token string, the
  secret and the required subject it returns the decoded payload, or \<open>None\<close> where the
  library throws.
\<close>

type_synonym jwt_verify = "string \<Rightarrow> string \<Rightarrow> string \<Rightarrow> token_options option"

definition authenticate :: "jwt_verify \<Rightarrow> string \<Rightarrow> rs \<Rightarrow> string + token_options" where
  "authenticate verify token s =
     (case verify token (rs_tokenSecret s) ''joinRoom'' of
        None \<Rightarrow> Inl ''The authentication token is invalid.''
      | Some data \<Rightarrow>
          if t_publicUrl data \<noteq> rs_publicUrl s
          then Inl ''The authentication token is intended for another room server.''
          else Inr data)"

definition auth_failed :: "nat \<Rightarrow> string \<Rightarrow> rs \<Rightarrow> rs" where
  "auth_failed k message s =
     socket_close k
       (socket_send k (JObj [(''error'', JStr ''Authentication Failed''),
                             (''message'', JStr message)]) s)"

text \<open>The \<open>once('message')\<close> callback that \<open>_handleClient\<close> attaches.\<close>

definition handleClient :: "jwt_verify \<Rightarrow> nat \<Rightarrow> string \<Rightarrow> rs \<Rightarrow> rs" where
  "handleClient verify k data s =
     (case authenticate verify data s of
        Inl message \<Rightarrow> auth_failed k message s
      | Inr token \<Rightarrow>
          (case connectClient k token s of
             Inl (message, s') \<Rightarrow> auth_failed k message s'
           | Inr s' \<Rightarrow> s'))"

fun removeRooms_rs :: "(string \<times> nat) list \<Rightarrow> rs \<Rightarrow> rs" where
  "removeRooms_rs [] s = s"
| "removeRooms_rs ((roomId, r) # rest) s =
     removeRooms_rs rest (if map_of (rs_rooms s) roomId = Some r then rs_removeRoom r s else s)"

text \<open>The callback that \<open>stop\<close> hands to \<open>ws.close\<close>. The WebSocket server is a parameter
  of the constructor and \<open>stop\<close> itself closes no client socket; when the ws library runs
  the callback is its own affair (a server that does not own its HTTP server runs it
  before the \<open>close\<close> events of the client sockets), so the callback is an input that
  may arrive in any state.\<close>

definition rs_stop :: "rs \<Rightarrow> rs" where
  "rs_stop s =
     (let s1 = removeRooms_rs (rs_rooms s) s;
          s2 = s1\<lparr>rs_pingInterval := False\<rparr>;
          s3 = s2\<lparr>rs_published := rs_published s2 @ [PubRsStop (rs_publicUrl s2)]\<rparr>;
          s4 = s3\<lparr>rs_listening := False\<rparr>
      in s4\<lparr>rs_emitted := rs_emitted s4 @ [RsStop]\<rparr>)"

definition sendPing :: "bool \<Rightarrow> rs \<Rightarrow> rs" where
  "sendPing reset s =
     s\<lparr>rs_published := rs_published s @
          [PubPing \<lparr>pg_publicUrl = rs_publicUrl s, pg_clientCount = rs_clientCount s,
                    pg_reset = (if reset then Some True else None)\<rparr>]\<rparr>"

definition sendRooms :: "string \<Rightarrow> rs \<Rightarrow> rs" where
  "sendRooms replyTo s =
     (let list =
            (if rs_syncRooms s
             then foldl (\<lambda>list (roomId, r).
                           js_set (r_id (roomObjs s r))
                             (if rs_syncClients s
                              then (room_summary_of (roomObjs s r))
                                     \<lparr>rm_clients := room_clients s (roomObjs s r)\<rparr>
                              else room_summary_of (roomObjs s r)) list)
                    [] (rs_rooms s)
             else [])
      in s\<lparr>rs_published := rs_published s @ [PubRooms replyTo list]\<rparr>)"

subsection \<open>What the sockets, the timers and the application deliver\<close>

datatype rs_input =
    WsConnection
  | SockMessage nat string
  | SockPong nat
  | SockError nat
  | SockClosing nat
  | SockClosed nat
  | RoomTick nat
  | PingTick
  | BusRooms string
  | BusBroadcastRs json
  | CallTerminate nat
  | CallStop

text \<open>
  \<open>WsConnection\<close>: a new socket is accepted and \<open>_handleClient\<close> attaches its handler.
  \<open>SockClosing\<close>: the closing handshake of an open socket starts. \<open>SockClosed\<close>: the
  socket reaches \<open>CLOSED\<close> and emits \<open>close\<close>, once. \<open>CallTerminate\<close> and \<open>CallStop\<close>: the
  application calls \<open>terminate()\<close> on a room it holds, and the \<open>ws\<close> server runs the
  callback of \<open>stop\<close>.
\<close>

fun rs_step :: "jwt_verify \<Rightarrow> rs \<Rightarrow> rs_input \<Rightarrow> rs" where
  "rs_step verify s WsConnection =
     (if rs_listening s
      then (upd_socket (nextSocket s) (\<lambda>sk. sk\<lparr>sk_onMessageOnce := True\<rparr>) s)
             \<lparr>nextSocket := Suc (nextSocket s)\<rparr>
      else s)"
| "rs_step verify s (SockMessage k data) =
     (if readyState (sockets s k) = OPEN \<and> sk_onMessageOnce (sockets s k)
      then handleClient verify k data (upd_socket k (\<lambda>sk. sk\<lparr>sk_onMessageOnce := False\<rparr>) s)
      else s)"
| "rs_step verify s (SockPong k) =
     (if readyState (sockets s k) = OPEN \<and> sk_clientListeners (sockets s k)
      then client_on_pong k s else s)"
| "rs_step verify s (SockError k) =
     (if sk_clientListeners (sockets s k) then client_terminate k s else s)"
| "rs_step verify s (SockClosing k) =
     (if readyState (sockets s k) = OPEN
      then upd_socket k (\<lambda>sk. sk\<lparr>readyState := CLOSING\<rparr>) s else s)"
| "rs_step verify s (SockClosed k) =
     (if readyState (sockets s k) \<noteq> CLOSED
      then socket_emit_close k (upd_socket k (\<lambda>sk. sk\<lparr>readyState := CLOSED\<rparr>) s) else s)"
| "rs_step verify s (RoomTick r) =
     (if r_pingInterval (roomObjs s r) then pingClients r s else s)"
| "rs_step verify s PingTick = (if rs_pingInterval s then sendPing False s else s)"
| "rs_step verify s (BusRooms replyTo) = sendRooms replyTo s"
| "rs_step verify s (BusBroadcastRs message) =
     s\<lparr>rs_emitted := rs_emitted s @ [RsBroadcast message]\<rparr>"
| "rs_step verify s (CallTerminate r) = room_terminate r s"
| "rs_step verify s CallStop = rs_stop s"

definition rs_run :: "jwt_verify \<Rightarrow> rs \<Rightarrow> rs_input list \<Rightarrow> rs" where
  "rs_run verify s inputs = foldl (rs_step verify) s inputs"

definition room_ok :: "room_summary \<Rightarrow> bool" where
  "room_ok room =
     (distinct (map fst (rm_clients room)) \<and> (\<forall>(k, c) \<in> set (rm_clients room). cs_id c = k))"

definition server_ok :: "room_server \<Rightarrow> bool" where
  "server_ok roomServer =
     (distinct (map fst (sv_rooms roomServer))
      \<and> (\<forall>(k, room) \<in> set (sv_rooms roomServer). rm_id room = k \<and> room_ok room))"

definition mirror_ok :: "discovery \<Rightarrow> bool" where
  "mirror_ok d = (\<forall>(url, ref) \<in> set (roomServers d). server_ok (servers d ref))"

definition res_of :: "'a outcome \<Rightarrow> 'a" where
  "res_of res = (case res of Returned x \<Rightarrow> x | Threw e x \<Rightarrow> x)"

definition records_ok :: "discovery \<Rightarrow> bool" where
  "records_ok d = (\<forall>ref. server_ok (servers d ref))"

text \<open>The own properties of an object in the order of \<open>Object.entries\<close>.\<close>

definition own_entries :: "(string \<times> 'a) list \<Rightarrow> (string \<times> 'a) list" where
  "own_entries obj = map (\<lambda>key. (key, the (map_of obj key))) (own_keys obj)"

definition plain_key :: "string \<Rightarrow> bool" where
  "plain_key key = (key \<notin> set object_prototype)"

text \<open>A room summary as a room server publishes it: each client under its own id, and no
  id that names a member of \<open>Object.prototype\<close>.\<close>

definition plain_room :: "room_summary \<Rightarrow> bool" where
  "plain_room room =
     (plain_key (rm_id room)
      \<and> list_all (\<lambda>(key, client). cs_id client = key \<and> plain_key key) (rm_clients room))"

definition ex_ping :: "string \<Rightarrow> int \<Rightarrow> bool option \<Rightarrow> room_server_ping" where
  "ex_ping url n r = \<lparr>pg_publicUrl = url, pg_clientCount = n, pg_reset = r\<rparr>"

definition ex_client :: client_summary where
  "ex_client = \<lparr>cs_id = ''C1'', cs_properties = None\<rparr>"

definition ex_room :: room_summary where
  "ex_room = \<lparr>rm_id = ''R1'', rm_publicUrl = ''rs-a'',
              rm_clients = [(''C1'', ex_client)], rm_properties = None\<rparr>"

text \<open>Rooms named \<open>constructor\<close> and \<open>undefined\<close>, both empty.\<close>

definition ex_room_named :: "string \<Rightarrow> room_summary" where
  "ex_room_named roomId = \<lparr>rm_id = roomId, rm_publicUrl = ''rs-a'',
              rm_clients = [], rm_properties = None\<rparr>"

definition ex_event :: "string \<Rightarrow> string \<Rightarrow> string \<Rightarrow> client_summary option \<Rightarrow> server_event" where
  "ex_event url roomId subject client =
     \<lparr>ev_publicUrl = url, ev_roomId = roomId, ev_subject = subject,
      ev_properties = None, ev_client = client\<rparr>"

text \<open>A Discovery that knows the server \<open>rs-a\<close> and its room \<open>R1\<close> holding \<open>C1\<close>.\<close>

definition ex_discovery :: discovery where
  "ex_discovery = d_run [BusPing 1000 (ex_ping ''rs-a'' 1 (Some True)), RoomsReply 0 [ex_room]]"

text \<open>The same when the server has announced a second room, named \<open>undefined\<close>.\<close>

definition ex_discovery_u :: discovery where
  "ex_discovery_u = d_run [BusPing 1000 (ex_ping ''rs-a'' 1 (Some True)), RoomsReply 0 [ex_room],
     BusRsEvent (ex_event ''rs-a'' ''undefined'' ''newRoom'' None)]"

definition envelope :: "string \<Rightarrow> json" where
  "envelope message = JObj [(''error'', JStr ''Authentication Failed''), (''message'', JStr message)]"

definition total_clients :: "rs \<Rightarrow> int" where
  "total_clients s =
     sum_list (map (\<lambda>(roomId, r). int (room_clientCount (roomObjs s r))) (rs_rooms s))"

definition count_ok :: "rs \<Rightarrow> bool" where
  "count_ok s = (rs_clientCount s = total_clients s)"

definition rooms_wf :: "rs \<Rightarrow> bool" where
  "rooms_wf s =
     (distinct (map fst (rs_rooms s)) \<and> distinct (map snd (rs_rooms s))
      \<and> (\<forall>(roomId, r) \<in> set (rs_rooms s). r_id (roomObjs s r) = roomId \<and> r < nextRoom s))"

definition members_wf :: "rs \<Rightarrow> bool" where
  "members_wf s = (\<forall>r. distinct (map fst (r_clients (roomObjs s r))))"

definition handlers_wf :: "rs \<Rightarrow> bool" where
  "handlers_wf s =
     (\<forall>k r. sk_onCloseOnce (sockets s k) = Some r \<longrightarrow>
        r \<in> snd ` set (rs_rooms s)
        \<and> map_of (r_clients (roomObjs s r)) (c_id (clientObjs s k)) = Some k)"

definition rs_inv :: "rs \<Rightarrow> bool" where
  "rs_inv s = (count_ok s \<and> rooms_wf s \<and> members_wf s \<and> handlers_wf s)"

fun env_input :: "rs_input \<Rightarrow> bool" where
  "env_input (CallTerminate r) = False"
| "env_input CallStop = False"
| "env_input _ = True"

definition rooms_empty :: "rs \<Rightarrow> bool" where
  "rooms_empty s = (\<forall>(roomId, r) \<in> set (rs_rooms s). r_clients (roomObjs s r) = [])"

definition ex_token :: "string \<Rightarrow> string \<Rightarrow> string \<Rightarrow> bool option \<Rightarrow> token_options" where
  "ex_token url roomId clientId joinOnly =
     \<lparr>t_publicUrl = url, t_roomId = roomId, t_roomProperties = None, t_clientId = clientId,
      t_clientProperties = None, t_joinOnly = joinOnly, t_expiresIn = None\<rparr>"

text \<open>A stand-in for \<open>jwt.verify\<close> that accepts four token strings.\<close>

definition ex_verify :: jwt_verify where
  "ex_verify token secret subject =
     (if secret \<noteq> ''defaultSecret'' \<or> subject \<noteq> ''joinRoom'' then None
      else if token = ''tok-C1'' then Some (ex_token ''rs-a'' ''R1'' ''C1'' None)
      else if token = ''tok-C2'' then Some (ex_token ''rs-a'' ''R1'' ''C2'' None)
      else if token = ''tok-B'' then Some (ex_token ''rs-b'' ''R1'' ''C1'' None)
      else if token = ''tok-J'' then Some (ex_token ''rs-a'' ''R2'' ''C3'' (Some True))
      else None)"

definition ex_rs :: rs where
  "ex_rs = new_room_server ''rs-a'' ''defaultSecret''
     \<lparr>o_syncRooms = None, o_syncClients = None,
      o_roomOptions = Some \<lparr>pingInterval = Some 50, missedPingsLimit = Some 2, keepAlive = None\<rparr>\<rparr>"

text \<open>One client \<open>C1\<close> admitted into \<open>R1\<close> on socket 0, and a second socket accepted.\<close>

definition ex_rs1 :: rs where
  "ex_rs1 = rs_run ex_verify ex_rs [WsConnection, SockMessage 0 ''tok-C1'', WsConnection]"

text \<open>What one heartbeat visit does to the socket and the Client object of a member.\<close>

definition ping_outcome :: "int option \<Rightarrow> socket \<times> client \<Rightarrow> socket \<times> client" where
  "ping_outcome missedLimit p =
     (case p of (sk, cl) \<Rightarrow>
        if ready_num (readyState sk) \<ge> ready_num CLOSING then (sk, cl)
        else if (case missedLimit of None \<Rightarrow> False | Some limit \<Rightarrow> int (c_missedPings cl) \<ge> limit)
        then (\<lparr>readyState = CLOSING, sk_calls = sk_calls sk @ [SockTerminate],
               sk_onMessageOnce = False, sk_clientListeners = False, sk_onCloseOnce = None\<rparr>, cl)
        else (sk\<lparr>sk_calls := sk_calls sk @ [SockPing]\<rparr>,
              cl\<lparr>c_missedPings := c_missedPings cl + 1\<rparr>))"

definition ping_terminates :: "rs \<Rightarrow> nat \<Rightarrow> int option \<Rightarrow> bool" where
  "ping_terminates s c missedLimit =
     (\<not> isClosing s c
      \<and> (case missedLimit of None \<Rightarrow> False
          | Some limit \<Rightarrow> int (c_missedPings (clientObjs s c)) \<ge> limit))"

text \<open>A member whose own visit does not terminate it is still a member after the tick,
  and the room keeps its timer, its options and the distinctness of its client objects.\<close>

definition tick_keeps :: "nat \<Rightarrow> string \<Rightarrow> nat \<Rightarrow> rs \<Rightarrow> rs \<Rightarrow> bool" where
  "tick_keeps r i c s s' =
     (rs_inv s' \<and> map_of (r_clients (roomObjs s' r)) i = Some c
      \<and> distinct (map snd (r_clients (roomObjs s' r)))
      \<and> r_options (roomObjs s' r) = r_options (roomObjs s r)
      \<and> r_pingInterval (roomObjs s' r) = r_pingInterval (roomObjs s r))"

text \<open>\<open>C1\<close> admitted into \<open>R1\<close> on socket 0; the room pings every 50 ms with a limit of 2.\<close>

definition ex_rs2 :: rs where
  "ex_rs2 = rs_run ex_verify ex_rs [WsConnection, SockMessage 0 ''tok-C1'']"

text \<open>The same after two unanswered ticks and the start of the closing handshake.\<close>

definition ex_rs_closing :: rs where
  "ex_rs_closing = rs_run ex_verify ex_rs
     [WsConnection, SockMessage 0 ''tok-C1'', RoomTick 0, RoomTick 0, SockClosing 0]"

text \<open>The same after two unanswered ticks, with the socket still open.\<close>

definition ex_rs_ticked :: rs where
  "ex_rs_ticked = rs_run ex_verify ex_rs
     [WsConnection, SockMessage 0 ''tok-C1'', RoomTick 0, RoomTick 0]"

text \<open>A room that the server no longer refers to: it is not in the room map, no close
  handler holds it, and it is not the next room to be allocated.\<close>

definition dead :: "nat \<Rightarrow> rs \<Rightarrow> bool" where
  "dead r s =
     ((\<forall>k. sk_onCloseOnce (sockets s k) \<noteq> Some r)
      \<and> r \<notin> snd ` set (rs_rooms s) \<and> r < nextRoom s)"

definition only_terminated :: "room_event list \<Rightarrow> bool" where
  "only_terminated evs = (\<forall>e \<in> set evs. e = Terminated)"

definition quiet :: "nat \<Rightarrow> rs \<Rightarrow> rs \<Rightarrow> bool" where
  "quiet r s s' =
     (dead r s'
      \<and> (\<exists>evs. r_emitted (roomObjs s' r) = r_emitted (roomObjs s r) @ evs \<and> only_terminated evs))"

definition listener_or_gone :: "nat \<Rightarrow> rs \<Rightarrow> bool" where
  "listener_or_gone r s =
     (r_terminatedListener (roomObjs s r) \<or> r \<notin> snd ` set (rs_rooms s))"

text \<open>Further facts of every state the server reaches through its sockets, timers and
  the bus: a room holds each Client object once, a socket that has not yet presented its
  first frame is in no room, a room of the map has the server's \<open>terminated\<close> listener,
  and a member whose socket is not closing has the server's close handler for its room.\<close>

definition clients_distinct :: "rs \<Rightarrow> bool" where
  "clients_distinct s = (\<forall>r. distinct (map snd (r_clients (roomObjs s r))))"

definition sockets_fresh :: "rs \<Rightarrow> bool" where
  "sockets_fresh s =
     (\<forall>k. (sk_onMessageOnce (sockets s k) \<longrightarrow> k < nextSocket s)
        \<and> (sk_onMessageOnce (sockets s k) \<or> nextSocket s \<le> k \<longrightarrow>
             (\<forall>r. k \<notin> snd ` set (r_clients (roomObjs s r)))))"

definition listeners_wf :: "rs \<Rightarrow> bool" where
  "listeners_wf s = (\<forall>r. listener_or_gone r s)"

definition open_handlers :: "rs \<Rightarrow> bool" where
  "open_handlers s =
     (\<forall>r i c. (i, c) \<in> set (r_clients (roomObjs s r)) \<and> \<not> isClosing s c \<longrightarrow>
        sk_onCloseOnce (sockets s c) = Some r)"

definition rs_inv2 :: "rs \<Rightarrow> bool" where
  "rs_inv2 s =
     (rs_inv s \<and> clients_distinct s \<and> sockets_fresh s \<and> listeners_wf s \<and> open_handlers s)"

text \<open>A step that only removes members and listeners.\<close>

definition shrinks :: "rs \<Rightarrow> rs \<Rightarrow> bool" where
  "shrinks s s' =
     ((\<forall>r. set (r_clients (roomObjs s' r)) \<subseteq> set (r_clients (roomObjs s r))
          \<and> (distinct (map snd (r_clients (roomObjs s r))) \<longrightarrow>
               distinct (map snd (r_clients (roomObjs s' r)))))
      \<and> (\<forall>k. sk_onMessageOnce (sockets s' k) \<longrightarrow> sk_onMessageOnce (sockets s k))
      \<and> nextSocket s' = nextSocket s
      \<and> (\<forall>r. listener_or_gone r s \<longrightarrow> listener_or_gone r s')
      \<and> (\<forall>k. \<not> isClosing s' k \<longrightarrow>
            \<not> isClosing s k \<and> sk_onCloseOnce (sockets s' k) = sk_onCloseOnce (sockets s k)))"

definition step_ok :: "rs \<Rightarrow> rs \<Rightarrow> bool" where
  "step_ok s s' = (rs_inv s' \<and> shrinks s s')"

text \<open>The progress of one tick towards the eviction of member \<open>c\<close>, known as \<open>i\<close>, of room \<open>r\<close>:
  either \<open>c\<close> is still to be visited, is a member with the close handler of \<open>r\<close> and is due
  for termination, or it has left the room with a \<open>left\<close> event since the tick began, when
  the events of the room were \<open>E0\<close>.\<close>

definition evicting ::
  "nat \<Rightarrow> string \<Rightarrow> nat \<Rightarrow> room_event list \<Rightarrow> int option \<Rightarrow> (string \<times> nat) list \<Rightarrow> rs \<Rightarrow> bool" where
  "evicting r i c E0 lim entries s =
     (\<exists>evs. r_emitted (roomObjs s r) = E0 @ evs
        \<and> (Left c \<in> set evs \<and> map_of (r_clients (roomObjs s r)) i = None
           \<or> (i, c) \<in> set entries \<and> map_of (r_clients (roomObjs s r)) i = Some c
             \<and> ping_terminates s c lim \<and> sk_onCloseOnce (sockets s c) = Some r))"

section \<open>Join tokens\<close>

text \<open>
  Modelled from the spec: the JSON web token itself, which the jsonwebtoken library builds
  and which is no part of the repository. The spec says that a token is a signed payload
  of \<open>publicUrl\<close>, \<open>roomId\<close>, \<open>roomProperties\<close>, \<open>clientId\<close>, \<open>clientProperties\<close> and
  \<open>joinOnly\<close> that carries \<open>exp\<close>, that its subject is the literal \<open>joinRoom\<close> and that the
  secret is shared between the issuer and the verifier. A token is what it carries: the
  payload, the subject, the time of issue and of expiry in seconds, and the secret it was
  signed with, which stands for the signature. The payload has the fields of
  \<open>ITokenOptions\<close> but \<open>expiresIn\<close>, which is left \<open>None\<close>. The room and client
  properties are JSON values, the type \<open>json\<close>: what JSON cannot carry (an \<open>undefined\<close>
  member, a function, \<open>NaN\<close>) is no value of that type.
\<close>

record jwt =
  jw_payload :: token_options
  jw_subject :: string
  jw_issued :: int
  jw_expires :: int
  jw_signedWith :: string

text \<open>
  Modelled from the spec: \<open>jwt.sign\<close> of the jsonwebtoken library. The spec gives the
  payload, the subject and the expiry carried by the token, and one time span, the default
  \<open>1m\<close>, which is one minute; how the library reads another \<open>expiresIn\<close> is not in the
  spec: \<open>span\<close> is that reading, in seconds, \<open>None\<close> where the library refuses the string
  and throws. \<open>now\<close> is the clock of the issuer, in seconds.
\<close>

definition jwt_sign ::
  "(string \<Rightarrow> int option) \<Rightarrow> int \<Rightarrow> token_options \<Rightarrow> string \<Rightarrow> string \<Rightarrow> string \<Rightarrow> jwt option" where
  "jwt_sign span now payload secret expiresIn subject =
     (case span expiresIn of
        None \<Rightarrow> None
      | Some lifetime \<Rightarrow>
          Some \<lparr>jw_payload = payload, jw_subject = subject, jw_issued = now,
                jw_expires = now + lifetime, jw_signedWith = secret\<rparr>)"

text \<open>
  Modelled from the spec: \<open>jwt.verify\<close> of the jsonwebtoken library. The spec says that
  verification fails on a malformed token, a bad signature, a wrong subject and on expiry,
  and returns the payload otherwise. \<open>decode\<close> reads the string that was received, \<open>None\<close>
  when it is malformed; \<open>now\<close> is the clock of the verifier, in seconds.
\<close>

definition jwt_verify_at :: "(string \<Rightarrow> jwt option) \<Rightarrow> int \<Rightarrow> jwt_verify" where
  "jwt_verify_at decode now token secret subject =
     (case decode token of
        None \<Rightarrow> None
      | Some t \<Rightarrow>
          if jw_signedWith t \<noteq> secret \<or> jw_expires t \<le> now \<or> jw_subject t \<noteq> subject
          then None
          else Some (jw_payload t))"

text \<open>
  \<open>Discovery.generateToken\<close> (discovery.ts). \<open>options.expiresIn || '1m'\<close> takes the default
  for an absent and for an empty string. \<open>encode\<close> is the compact form in which
  \<open>jwt.sign\<close> returns the token; the result is \<open>None\<close> where \<open>jwt.sign\<close> throws.
\<close>

definition expiry_of :: "token_options \<Rightarrow> string" where
  "expiry_of options =
     (case t_expiresIn options of None \<Rightarrow> ''1m'' | Some e \<Rightarrow> if e = [] then ''1m'' else e)"

definition generateToken ::
  "(string \<Rightarrow> int option) \<Rightarrow> (jwt \<Rightarrow> string) \<Rightarrow> int \<Rightarrow> string \<Rightarrow> token_options \<Rightarrow> string option" where
  "generateToken span encode now tokenSecret options =
     (let expiresIn = expiry_of options;
          payload = \<lparr>t_publicUrl = t_publicUrl options,
                     t_roomId = t_roomId options,
                     t_roomProperties = t_roomProperties options,
                     t_clientId = t_clientId options,
                     t_clientProperties = t_clientProperties options,
                     t_joinOnly = t_joinOnly options,
                     t_expiresIn = None\<rparr>
      in map_option encode (jwt_sign span now payload tokenSecret expiresIn ''joinRoom''))"

text \<open>The six fields of the payload.\<close>

definition six_fields ::
  "token_options \<Rightarrow> string \<times> string \<times> json option \<times> string \<times> json option \<times> bool option" where
  "six_fields t =
     (t_publicUrl t, t_roomId t, t_roomProperties t, t_clientId t, t_clientProperties t,
      t_joinOnly t)"

text \<open>Stand-ins for the reading of time spans and for the compact form: \<open>1m\<close> is sixty
  seconds, and the token of \<open>C1\<close> for \<open>R1\<close> on \<open>rs-a\<close>, issued at time 0, is the string
  \<open>tok-C1\<close>.\<close>

definition ex_span :: "string \<Rightarrow> int option" where
  "ex_span e = (if e = ''1m'' then Some 60 else None)"

definition ex_jwt :: jwt where
  "ex_jwt = \<lparr>jw_payload = ex_token ''rs-a'' ''R1'' ''C1'' None, jw_subject = ''joinRoom'',
             jw_issued = 0, jw_expires = 60, jw_signedWith = ''defaultSecret''\<rparr>"

definition ex_encode :: "jwt \<Rightarrow> string" where
  "ex_encode t = (if t = ex_jwt then ''tok-C1'' else [])"

definition ex_decode :: "string \<Rightarrow> jwt option" where
  "ex_decode token = (if token = ''tok-C1'' then Some ex_jwt else None)"

section \<open>Proofs\<close>

lemma update_absent: "map_of al k = None \<Longrightarrow> AList.update k v al = al @ [(k, v)]"
  by (induction al) (auto split: if_splits)

lemma set_update_subset: "set (AList.update k v al) \<subseteq> insert (k, v) (set al)"
  by (induction al) auto

lemma set_delete_subset: "set (AList.delete k al) \<subseteq> set al"
  by (auto simp: AList.delete_eq)

subsection \<open>Reading and enumerating a plain object\<close>

lemma js_get_Own: "js_get obj key = Own v \<longleftrightarrow> map_of obj key = Some v"
  by (simp add: js_get_def split: option.splits)

lemma js_get_Missing:
  "js_get obj key = Missing \<longleftrightarrow> map_of obj key = None \<and> key \<notin> set object_prototype"
  by (simp add: js_get_def split: option.splits)

lemma js_get_Inherited:
  "js_get obj key = Inherited name \<longleftrightarrow>
     map_of obj key = None \<and> key \<in> set object_prototype \<and> name = key"
  by (auto simp: js_get_def split: option.splits)

lemma js_set_Missing:
  "js_get obj key = Missing \<Longrightarrow> js_set key v obj = obj @ [(key, v)]"
  by (auto simp: js_get_Missing js_set_def object_prototype_def update_absent)

lemma set_own_keys: "set (own_keys obj) = fst ` set obj"
  by (auto simp: own_keys_def Let_def)

lemma distinct_own_keys: "distinct (own_keys obj)"
  by (auto simp: own_keys_def Let_def)

subsection \<open>Well-formed mirrors\<close>

lemma addNewClient_ok: "room_ok room \<Longrightarrow> room_ok (fst (addNewClient room client))"
proof (cases "js_get (rm_clients room) (cs_id client)")
  case Missing
  assume ok: "room_ok room"
  have eq: "fst (addNewClient room client) =
      room\<lparr>rm_clients := rm_clients room @ [(cs_id client, client)]\<rparr>"
    using Missing js_set_Missing[OF Missing, of client] by (simp add: addNewClient_def Let_def)
  have "cs_id client \<notin> fst ` set (rm_clients room)"
    using Missing by (simp add: js_get_Missing map_of_eq_None_iff)
  then show ?thesis unfolding eq using ok by (auto simp: room_ok_def)
qed (simp_all add: addNewClient_def)

lemma addNewClient_id: "rm_id (fst (addNewClient room client)) = rm_id room"
  by (simp add: addNewClient_def Let_def split: js_member.splits)

lemma removeClient_ok: "room_ok room \<Longrightarrow> room_ok (fst (removeClient room clientId))"
  using set_delete_subset[of clientId "rm_clients room"]
  by (auto simp: removeClient_def room_ok_def distinct_delete split: js_member.splits)

lemma removeClient_id: "rm_id (fst (removeClient room clientId)) = rm_id room"
  by (simp add: removeClient_def split: js_member.splits)

lemma addClients_ok: "room_ok (fst acc) \<Longrightarrow> room_ok (fst (addClients cs acc))"
proof (induction cs acc rule: addClients.induct)
  case (1 acc)
  then show ?case by simp
next
  case (2 client rest room evs)
  then show ?case using addNewClient_ok[of room client]
    by (auto split: prod.splits)
qed

lemma addClients_id: "rm_id (fst (addClients cs acc)) = rm_id (fst acc)"
proof (induction cs acc rule: addClients.induct)
  case (1 acc)
  then show ?case by simp
next
  case (2 client rest room evs)
  then show ?case using addNewClient_id[of room client]
    by (auto split: prod.splits)
qed

lemma removeClients_ok: "room_ok (fst acc) \<Longrightarrow> room_ok (fst (removeClients ids acc))"
proof (induction ids acc rule: removeClients.induct)
  case (1 acc)
  then show ?case by simp
next
  case (2 clientId rest room evs)
  then show ?case using removeClient_ok[of room clientId]
    by (auto split: prod.splits)
qed

lemma addNewRoom_ok: "server_ok roomServer \<Longrightarrow> server_ok (fst (addNewRoom roomServer room))"
proof (cases "js_get (sv_rooms roomServer) (rm_id room)")
  case Missing
  assume ok: "server_ok roomServer"
  let ?room0 = "room\<lparr>rm_clients := []\<rparr>"
  let ?res = "addClients (own_values (rm_clients room)) (?room0, [NewRoom ?room0])"
  have r0: "room_ok (fst (?room0, [NewRoom ?room0]))" by (simp add: room_ok_def)
  have 1: "room_ok (fst ?res)" using addClients_ok[OF r0] .
  have 2: "rm_id (fst ?res) = rm_id room"
    using addClients_id[of "own_values (rm_clients room)" "(?room0, [NewRoom ?room0])"] by simp
  have eq: "fst (addNewRoom roomServer room) =
      roomServer\<lparr>sv_rooms := sv_rooms roomServer @ [(rm_id room, fst ?res)]\<rparr>"
    using Missing js_set_Missing[OF Missing]
    by (simp add: addNewRoom_def Let_def split: prod.splits)
  have "rm_id room \<notin> fst ` set (sv_rooms roomServer)"
    using Missing by (simp add: js_get_Missing map_of_eq_None_iff)
  then show ?thesis
    unfolding eq using ok 1 2 by (auto simp: server_ok_def)
qed (simp_all add: addNewRoom_def)

lemma removeRoom_ok:
  "server_ok roomServer \<Longrightarrow> server_ok (fst (res_of (removeRoom roomServer roomId)))"
  using set_delete_subset[of roomId "sv_rooms roomServer"]
  by (auto simp: removeRoom_def res_of_def server_ok_def distinct_delete
      split: js_member.splits prod.splits)

lemma removeRooms_ok:
  "server_ok roomServer \<Longrightarrow> server_ok (fst (res_of (removeRooms ids (roomServer, evs))))"
proof (induction ids arbitrary: roomServer evs)
  case Nil
  then show ?case by (simp add: res_of_def)
next
  case (Cons roomId rest)
  have ok1: "server_ok (fst (res_of (removeRoom roomServer roomId)))"
    using removeRoom_ok[OF Cons.prems] .
  show ?case
  proof (cases "removeRoom roomServer roomId")
    case (Returned r)
    obtain sv' evs' where r: "r = (sv', evs')" by (cases r)
    have "server_ok sv'" using ok1 Returned r by (simp add: res_of_def)
    then show ?thesis using Cons.IH[of sv' "evs @ evs'"] Returned r by simp
  next
    case (Threw e r)
    obtain sv' evs' where r: "r = (sv', evs')" by (cases r)
    have "server_ok sv'" using ok1 Threw r by (simp add: res_of_def)
    then show ?thesis using Threw r by (simp add: res_of_def)
  qed
qed

lemma put_server_ok: "records_ok d \<Longrightarrow> server_ok (fst res) \<Longrightarrow> records_ok (put_server ref res d)"
  by (simp add: records_ok_def put_server_def)

lemma removeServer_ok: "records_ok d \<Longrightarrow> records_ok (res_of (removeServer ref d))"
proof -
  assume ok: "records_ok d"
  let ?res = "removeRooms (own_keys (sv_rooms (servers d ref))) (servers d ref, [])"
  have "server_ok (fst (res_of ?res))"
    using ok removeRooms_ok[of "servers d ref"] by (simp add: records_ok_def)
  from put_server_ok[OF ok this, of ref] show ?thesis
    by (cases ?res) (simp_all add: removeServer_def Let_def records_ok_def put_server_def res_of_def)
qed

lemma removeServerByUrl_ok: "records_ok d \<Longrightarrow> records_ok (res_of (removeServerByUrl publicUrl d))"
  using removeServer_ok
  by (simp add: removeServerByUrl_def res_of_def split: option.splits)

lemma subscribed_ok: "records_ok (res_of res) \<Longrightarrow> records_ok (subscribed res)"
  by (cases res) (simp_all add: subscribed_def res_of_def records_ok_def)

lemma addNewServer_ok: "records_ok d \<Longrightarrow> sv_rooms server = [] \<Longrightarrow> records_ok (addNewServer server d)"
  by (simp add: addNewServer_def Let_def records_ok_def server_ok_def)

lemma receiveServerPing_ok: "records_ok d \<Longrightarrow> records_ok (receiveServerPing now server d)"
proof -
  assume ok: "records_ok d"
  let ?d1 = "if pg_reset server = Some True
                then d\<lparr>roomServers := AList.delete (pg_publicUrl server) (roomServers d)\<rparr>
                else d"
  have ok1: "records_ok ?d1" using ok by (simp add: records_ok_def)
  show ?thesis
  proof (cases "map_of (roomServers ?d1) (pg_publicUrl server)")
    case None
    then show ?thesis using addNewServer_ok[OF ok1]
      by (simp add: receiveServerPing_def Let_def)
  next
    case (Some ref)
    have sv: "servers ?d1 = servers d" by simp
    have "\<And>r. server_ok (servers d r)" using ok by (simp add: records_ok_def)
    then have "\<And>r. server_ok ((servers d r)\<lparr>sv_clientCount := pg_clientCount server, sv_lastPing := now\<rparr>)"
      by (simp add: server_ok_def)
    then show ?thesis using Some ok unfolding receiveServerPing_def Let_def records_ok_def
      by (simp only: sv option.case) (simp add: server_ok_def)
  qed
qed

lemma put_room_ok:
  assumes "records_ok d" and "map_of (sv_rooms (servers d ref)) key = Some room"
    and "room_ok (fst res)" and "rm_id (fst res) = rm_id room"
  shows "records_ok (put_room ref key res d)"
proof -
  have sv: "server_ok (servers d ref)" using assms(1) by (simp add: records_ok_def)
  have mem: "(key, room) \<in> set (sv_rooms (servers d ref))" using assms(2) by (rule map_of_SomeD)
  then have id: "rm_id room = key" using sv by (auto simp: server_ok_def)
  have "server_ok ((servers d ref)\<lparr>sv_rooms := AList.update key (fst res) (sv_rooms (servers d ref))\<rparr>)"
    using sv assms(3,4) id set_update_subset[of key "fst res" "sv_rooms (servers d ref)"]
    by (auto simp: server_ok_def distinct_update)
  then show ?thesis
    unfolding put_room_def using put_server_ok[OF assms(1)] by simp
qed

lemma lift_server_ok:
  "records_ok d \<Longrightarrow> server_ok (fst (res_of res)) \<Longrightarrow> records_ok (res_of (lift_server ref d res))"
  using put_server_ok
  by (cases res) (simp_all add: lift_server_def res_of_def)

lemma handleServerEvent_ok:
  assumes "records_ok d"
  shows "records_ok (res_of (handleServerEvent event d))"
proof (cases "map_of (roomServers d) (ev_publicUrl event)")
  case None
  then show ?thesis using assms by (simp add: handleServerEvent_def res_of_def)
next
  case (Some ref)
  have sv: "server_ok (servers d ref)" using assms(1) by (simp add: records_ok_def)
  show ?thesis
  proof (cases "ev_subject event = ''newRoom''")
    case True
    then show ?thesis
      using assms Some put_server_ok[OF assms(1) addNewRoom_ok[OF sv]]
      by (auto simp: handleServerEvent_def Let_def res_of_def)
  next
    case nn: False
    show ?thesis
    proof (cases "js_get (sv_rooms (servers d ref)) (ev_roomId event)")
      case Missing
      then show ?thesis using assms Some nn by (simp add: handleServerEvent_def Let_def res_of_def)
    next
      case (Inherited name)
      then show ?thesis
        using assms Some nn lift_server_ok[OF assms(1) removeRoom_ok[OF sv], of ref "''undefined''"]
        by (simp add: handleServerEvent_def Let_def res_of_def)
    next
      case (Own room)
      then have rm: "map_of (sv_rooms (servers d ref)) (ev_roomId event) = Some room"
        by (simp add: js_get_Own)
      have "(ev_roomId event, room) \<in> set (sv_rooms (servers d ref))" using rm by (rule map_of_SomeD)
      then have rok: "room_ok room" using sv by (auto simp: server_ok_def)
      show ?thesis
        using Some nn Own
          lift_server_ok[OF assms(1) removeRoom_ok[OF sv], of ref "rm_id room"]
          put_room_ok[OF assms(1) rm addNewClient_ok[OF rok] addNewClient_id]
          put_room_ok[OF assms(1) rm removeClient_ok[OF rok] removeClient_id]
          assms(1)
        by (auto simp: handleServerEvent_def Let_def res_of_def split: option.splits)
    qed
  qed
qed

lemma on_rs_event_ok: "records_ok d \<Longrightarrow> records_ok (on_rs_event event d)"
  unfolding on_rs_event_def by (rule subscribed_ok) (rule handleServerEvent_ok)

lemma on_rs_stop_ok: "records_ok d \<Longrightarrow> records_ok (on_rs_stop publicUrl d)"
  unfolding on_rs_stop_def by (rule subscribed_ok) (rule removeServerByUrl_ok)

lemma roomsCallback_ok: "records_ok d \<Longrightarrow> records_ok (roomsCallback ref rooms d)"
proof (induction rooms arbitrary: d)
  case Nil
  then show ?case by simp
next
  case (Cons room rest)
  have "server_ok (servers d ref)" using Cons.prems by (simp add: records_ok_def)
  then have "records_ok (put_server ref (addNewRoom (servers d ref) room) d)"
    using put_server_ok[OF Cons.prems] addNewRoom_ok by blast
  then show ?case using Cons.IH by simp
qed

lemma on_rooms_reply_ok: "records_ok d \<Longrightarrow> records_ok (on_rooms_reply n rooms d)"
proof -
  assume ok: "records_ok d"
  have "records_ok (d\<lparr>d_requests := take n (d_requests d) @ drop (Suc n) (d_requests d)\<rparr>)"
    using ok by (simp add: records_ok_def)
  then show ?thesis using ok roomsCallback_ok by (simp add: on_rooms_reply_def)
qed

lemma checkServers_ok: "records_ok d \<Longrightarrow> records_ok (res_of (checkServers now entries d))"
proof (induction entries arbitrary: d)
  case Nil
  then show ?case by (simp add: res_of_def)
next
  case (Cons entry entries)
  obtain url ref where e: "entry = (url, ref)" by (cases entry)
  have r: "records_ok (res_of (removeServer ref d))" using removeServer_ok[OF Cons.prems] .
  show ?case
  proof (cases "removeServer ref d")
    case (Returned d')
    then have "records_ok d'" using r by (simp add: res_of_def)
    then show ?thesis using Cons e Returned by simp
  next
    case (Threw x d')
    then have "records_ok d'" using r by (simp add: res_of_def)
    then show ?thesis using Cons e Threw by (simp add: res_of_def)
  qed
qed

lemma on_check_tick_ok: "records_ok d \<Longrightarrow> records_ok (on_check_tick now d)"
  using checkServers_ok[of d now "roomServers d"]
  by (cases "checkServers now (roomServers d) d")
     (simp_all add: on_check_tick_def serverCheckLoop_def res_of_def records_ok_def)

lemma d_deliver_ok: "records_ok d \<Longrightarrow> records_ok (d_deliver d input)"
proof (cases input)
  case (BusPing now server)
  assume "records_ok d"
  then show ?thesis using BusPing receiveServerPing_ok by simp
next
  case (BusBroadcast message)
  assume "records_ok d"
  then show ?thesis using BusBroadcast by (simp add: records_ok_def)
next
  case (BusRsEvent event)
  assume "records_ok d"
  then show ?thesis using BusRsEvent on_rs_event_ok by simp
next
  case (BusRsStop publicUrl)
  assume "records_ok d"
  then show ?thesis using BusRsStop on_rs_stop_ok by simp
next
  case (RoomsReply n rooms)
  assume "records_ok d"
  then show ?thesis using RoomsReply on_rooms_reply_ok by simp
next
  case (CheckTick now)
  assume "records_ok d"
  then show ?thesis using CheckTick on_check_tick_ok by simp
next
  case CallStop
  assume "records_ok d"
  then show ?thesis using CallStop by (simp add: d_stop_def records_ok_def)
qed

lemma d_step_ok: "records_ok d \<Longrightarrow> records_ok (d_step d input)"
  by (simp add: d_step_def d_deliver_ok)

lemma foldl_d_step_ok: "records_ok d \<Longrightarrow> records_ok (foldl d_step d inputs)"
  by (induction inputs arbitrary: d) (simp_all add: d_step_ok)

lemma d_run_ok: "records_ok (d_run inputs)"
  unfolding d_run_def
  by (rule foldl_d_step_ok) (simp add: records_ok_def new_discovery_def server_ok_def)

lemma own_values_entries: "own_values obj = map snd (own_entries obj)"
  by (simp add: own_values_def own_entries_def comp_def)

lemma own_entries_keys: "map fst (own_entries obj) = own_keys obj"
  by (simp add: own_entries_def comp_def)

lemma own_entries_mem:
  "(key, v) \<in> set (own_entries obj) \<Longrightarrow> map_of obj key = Some v"
proof -
  assume "(key, v) \<in> set (own_entries obj)"
  then have k: "key \<in> fst ` set obj" and v: "v = the (map_of obj key)"
    by (auto simp: own_entries_def set_own_keys)
  then obtain w where "map_of obj key = Some w"
    by (metis domIff dom_map_of_conv_image_fst not_Some_eq)
  then show ?thesis using v by simp
qed

lemma keyed_values: "\<forall>(k, c) \<in> set al. cs_id c = k \<Longrightarrow> map (\<lambda>c. (cs_id c, c)) (map snd al) = al"
  by (induction al) auto

lemma keyed_ids: "\<forall>(k, c) \<in> set al. cs_id c = k \<Longrightarrow> map cs_id (map snd al) = map fst al"
  by (induction al) auto

lemma addClients_fresh:
  "distinct (map cs_id cs) \<Longrightarrow> set (map cs_id cs) \<inter> fst ` set (rm_clients room) = {} \<Longrightarrow>
   list_all (\<lambda>c. plain_key (cs_id c)) cs \<Longrightarrow>
   fst (addClients cs (room, evs)) = room\<lparr>rm_clients := rm_clients room @ map (\<lambda>c. (cs_id c, c)) cs\<rparr>"
proof (induction cs arbitrary: room evs)
  case Nil
  then show ?case by simp
next
  case (Cons c cs)
  have absent: "js_get (rm_clients room) (cs_id c) = Missing"
    using Cons.prems(2,3) by (auto simp: js_get_Missing map_of_eq_None_iff plain_key_def)
  let ?room' = "room\<lparr>rm_clients := rm_clients room @ [(cs_id c, c)]\<rparr>"
  have step: "addNewClient room c = (?room', [RoomJoined ?room' c])"
    using absent js_set_Missing[OF absent, of c] by (simp add: addNewClient_def Let_def)
  have "fst (addClients cs (?room', evs @ [RoomJoined ?room' c])) =
        ?room'\<lparr>rm_clients := rm_clients ?room' @ map (\<lambda>c. (cs_id c, c)) cs\<rparr>"
    using Cons.prems by (intro Cons.IH) auto
  then show ?case using step by simp
qed

lemma addNewRoom_fresh:
  assumes "plain_room room" and "map_of (sv_rooms roomServer) (rm_id room) = None"
  shows "fst (addNewRoom roomServer room) =
         roomServer\<lparr>sv_rooms := sv_rooms roomServer
            @ [(rm_id room, room\<lparr>rm_clients := own_entries (rm_clients room)\<rparr>)]\<rparr>"
proof -
  let ?room0 = "room\<lparr>rm_clients := []\<rparr>"
  let ?es = "own_entries (rm_clients room)"
  have keys: "\<And>k c. (k, c) \<in> set (rm_clients room) \<Longrightarrow> cs_id c = k \<and> plain_key k"
    using assms(1) by (auto simp: plain_room_def list_all_iff)
  have mem: "cs_id c = k \<and> plain_key k" if "(k, c) \<in> set ?es" for k c
  proof -
    have "map_of (rm_clients room) k = Some c" using that by (rule own_entries_mem)
    then have "(k, c) \<in> set (rm_clients room)" by (rule map_of_SomeD)
    then show ?thesis by (rule keys)
  qed
  have keyed: "\<forall>(k, c) \<in> set ?es. cs_id c = k" using mem by blast
  have ids: "map cs_id (map snd ?es) = own_keys (rm_clients room)"
    using keyed_ids[OF keyed] by (simp add: own_entries_keys del: map_map)
  have rebuilt: "map (\<lambda>c. (cs_id c, c)) (map snd ?es) = ?es"
    using keyed_values[OF keyed] .
  have pl: "list_all (\<lambda>c. plain_key (cs_id c)) (map snd ?es)"
    unfolding list_all_iff using mem by fastforce
  have "fst (addClients (map snd ?es) (?room0, [NewRoom ?room0])) =
        ?room0\<lparr>rm_clients := rm_clients ?room0 @ map (\<lambda>c. (cs_id c, c)) (map snd ?es)\<rparr>"
    using ids distinct_own_keys[of "rm_clients room"] pl
    by (intro addClients_fresh) (simp_all del: map_map)
  then have res: "fst (addClients (own_values (rm_clients room)) (?room0, [NewRoom ?room0])) =
        room\<lparr>rm_clients := ?es\<rparr>"
    using rebuilt by (simp add: own_values_entries del: map_map)
  have missing: "js_get (sv_rooms roomServer) (rm_id room) = Missing"
    using assms by (simp add: js_get_Missing plain_room_def plain_key_def)
  show ?thesis
    using missing js_set_Missing[OF missing] res
    by (auto simp: addNewRoom_def Let_def split: prod.splits)
qed

lemma addNewRoom_inherited:
  "rm_id room \<in> set object_prototype \<Longrightarrow> addNewRoom roomServer room = (roomServer, [])"
  by (simp add: addNewRoom_def js_get_def split: option.splits)

lemma addNewClient_inherited:
  "cs_id client \<in> set object_prototype \<Longrightarrow> addNewClient room client = (room, [])"
  by (simp add: addNewClient_def js_get_def split: option.splits)

lemma roomsCallback_requests: "d_requests (roomsCallback ref rooms d) = d_requests d"
  by (induction rooms arbitrary: d) (simp_all add: put_server_def)

lemma roomsCallback_roomServers: "roomServers (roomsCallback ref rooms d) = roomServers d"
  by (induction rooms arbitrary: d) (simp_all add: put_server_def)

lemma roomsCallback_fold:
  "servers (roomsCallback ref rooms d) ref =
     foldl (\<lambda>roomServer room. fst (addNewRoom roomServer room)) (servers d ref) rooms"
  by (induction rooms arbitrary: d) (simp_all add: put_server_def)

lemma roomsCallback_fresh:
  "list_all plain_room rooms \<Longrightarrow> distinct (map rm_id rooms) \<Longrightarrow>
   set (map rm_id rooms) \<inter> fst ` set (sv_rooms (servers d ref)) = {} \<Longrightarrow>
   sv_rooms (servers (roomsCallback ref rooms d) ref) =
     sv_rooms (servers d ref)
       @ map (\<lambda>room. (rm_id room, room\<lparr>rm_clients := own_entries (rm_clients room)\<rparr>)) rooms"
proof (induction rooms arbitrary: d)
  case Nil
  then show ?case by simp
next
  case (Cons room rooms)
  have absent: "map_of (sv_rooms (servers d ref)) (rm_id room) = None"
    using Cons.prems(3) by (auto simp: map_of_eq_None_iff)
  have rok: "plain_room room" using Cons.prems(1) by simp
  let ?d1 = "put_server ref (addNewRoom (servers d ref) room) d"
  have sv1: "sv_rooms (servers ?d1 ref) =
      sv_rooms (servers d ref) @ [(rm_id room, room\<lparr>rm_clients := own_entries (rm_clients room)\<rparr>)]"
    using addNewRoom_fresh[OF rok absent] by (simp add: put_server_def)
  have "sv_rooms (servers (roomsCallback ref rooms ?d1) ref) =
        sv_rooms (servers ?d1 ref)
          @ map (\<lambda>room. (rm_id room, room\<lparr>rm_clients := own_entries (rm_clients room)\<rparr>)) rooms"
    using Cons.prems by (intro Cons.IH) (auto simp: sv1)
  then show ?case by (simp add: sv1)
qed

subsection \<open>The loops over own keys never throw\<close>

lemma removeRooms_returns:
  "distinct ids \<Longrightarrow> set ids \<subseteq> fst ` set (sv_rooms roomServer) \<Longrightarrow>
   \<exists>r. removeRooms ids (roomServer, evs) = Returned r"
proof (induction ids arbitrary: roomServer evs)
  case Nil
  then show ?case by simp
next
  case (Cons roomId ids)
  have "roomId \<in> fst ` set (sv_rooms roomServer)" using Cons.prems(2) by simp
  then obtain room where own: "map_of (sv_rooms roomServer) roomId = Some room"
    by (metis domIff dom_map_of_conv_image_fst not_Some_eq)
  obtain room' evs' where rc: "removeClients (own_keys (rm_clients room)) (room, []) = (room', evs')"
    by (cases "removeClients (own_keys (rm_clients room)) (room, [])")
  let ?sv = "roomServer\<lparr>sv_rooms := AList.delete roomId (sv_rooms roomServer)\<rparr>"
  have step: "removeRoom roomServer roomId = Returned (?sv, evs' @ [RoomRemoved room'])"
    using own rc by (simp add: removeRoom_def js_get_def)
  have "set ids \<subseteq> fst ` set (sv_rooms ?sv)"
    using Cons.prems by (auto simp: AList.delete_eq image_iff) force
  moreover have "distinct ids" using Cons.prems(1) by simp
  ultimately have "\<exists>r. removeRooms ids (?sv, evs @ evs' @ [RoomRemoved room']) = Returned r"
    by (intro Cons.IH)
  then show ?case using step by simp
qed

lemma removeServer_returns: "\<exists>d'. removeServer ref d = Returned d'"
proof -
  obtain r where "removeRooms (own_keys (sv_rooms (servers d ref))) (servers d ref, []) = Returned r"
    using removeRooms_returns[OF distinct_own_keys, of "sv_rooms (servers d ref)" "servers d ref" "[]"]
    by (auto simp: set_own_keys)
  then show ?thesis by (simp add: removeServer_def Let_def)
qed

lemma checkServers_returns: "\<exists>d'. checkServers now entries d = Returned d'"
proof (induction entries arbitrary: d)
  case Nil
  then show ?case by simp
next
  case (Cons entry entries)
  obtain url ref where e: "entry = (url, ref)" by (cases entry)
  obtain d1 where "removeServer ref d = Returned d1" using removeServer_returns by blast
  then show ?case using Cons e by simp
qed

lemma put_server_uncaught: "d_uncaught (put_server ref res d) = d_uncaught d"
  by (simp add: put_server_def)

lemma put_room_uncaught: "d_uncaught (put_room ref key res d) = d_uncaught d"
  by (simp add: put_room_def put_server_def)

lemma lift_server_uncaught: "d_uncaught (res_of (lift_server ref d res)) = d_uncaught d"
  by (cases res) (simp_all add: lift_server_def res_of_def put_server_def)

lemma subscribed_uncaught: "d_uncaught (subscribed res) = d_uncaught (res_of res)"
  by (cases res) (simp_all add: subscribed_def res_of_def)

lemma handleServerEvent_uncaught:
  "d_uncaught (res_of (handleServerEvent event d)) = d_uncaught d"
proof (cases "map_of (roomServers d) (ev_publicUrl event)")
  case None
  then show ?thesis by (simp add: handleServerEvent_def res_of_def)
next
  case (Some ref)
  show ?thesis
  proof (cases "ev_subject event = ''newRoom''")
    case True
    then show ?thesis using Some
      by (simp add: handleServerEvent_def Let_def res_of_def put_server_uncaught)
  next
    case False
    have r: "\<And>x. d_uncaught (case Returned x of Returned y \<Rightarrow> y | Threw e y \<Rightarrow> y) = d_uncaught x"
      by simp
    show ?thesis
    proof (cases "js_get (sv_rooms (servers d ref)) (ev_roomId event)")
      case Missing
      then show ?thesis using Some False by (simp add: handleServerEvent_def Let_def res_of_def)
    next
      case (Inherited name)
      then show ?thesis using Some False lift_server_uncaught[of ref d]
        by (simp add: handleServerEvent_def Let_def) (simp add: res_of_def)
    next
      case (Own room)
      then show ?thesis using Some False lift_server_uncaught[of ref d]
        by (simp add: handleServerEvent_def Let_def split: option.splits)
           (simp add: res_of_def put_room_uncaught)
    qed
  qed
qed

lemma removeServer_uncaught: "d_uncaught (res_of (removeServer ref d)) = d_uncaught d"
  by (simp add: removeServer_def Let_def put_server_def res_of_def split: outcome.splits)

lemma checkServers_uncaught: "d_uncaught (res_of (checkServers now entries d)) = d_uncaught d"
proof (induction entries arbitrary: d)
  case Nil
  then show ?case by (simp add: res_of_def)
next
  case (Cons entry entries)
  obtain url ref where e: "entry = (url, ref)" by (cases entry)
  obtain d1 where r: "removeServer ref d = Returned d1" using removeServer_returns by blast
  have "d_uncaught d1 = d_uncaught d" using removeServer_uncaught[of ref d] r by (simp add: res_of_def)
  then show ?case using Cons[of d1] Cons[of d] e r by simp
qed

lemma roomsCallback_uncaught: "d_uncaught (roomsCallback ref rooms d) = d_uncaught d"
  by (induction rooms arbitrary: d) (simp_all add: put_server_def)

lemma d_step_uncaught: "d_uncaught d = [] \<Longrightarrow> d_uncaught (d_step d input) = []"
proof (cases input)
  case (BusPing now server)
  assume "d_uncaught d = []"
  then show ?thesis using BusPing
    by (simp add: d_step_def receiveServerPing_def addNewServer_def Let_def split: option.splits)
next
  case (BusBroadcast message)
  assume "d_uncaught d = []"
  then show ?thesis using BusBroadcast by (simp add: d_step_def)
next
  case (BusRsEvent event)
  assume u: "d_uncaught d = []"
  then show ?thesis using BusRsEvent
    by (simp add: d_step_def on_rs_event_def subscribed_uncaught handleServerEvent_uncaught)
next
  case (BusRsStop publicUrl)
  assume u: "d_uncaught d = []"
  have "d_uncaught (res_of (removeServerByUrl publicUrl d)) = d_uncaught d"
    using removeServer_uncaught
    by (simp add: removeServerByUrl_def res_of_def split: option.splits)
  then show ?thesis using u BusRsStop
    by (simp add: d_step_def on_rs_stop_def subscribed_uncaught)
next
  case (RoomsReply n rooms)
  assume u: "d_uncaught d = []"
  then show ?thesis using RoomsReply
    by (simp add: d_step_def on_rooms_reply_def roomsCallback_uncaught)
next
  case (CheckTick now)
  assume u: "d_uncaught d = []"
  obtain d1 where r: "checkServers now (roomServers d) d = Returned d1"
    using checkServers_returns by blast
  have "d_uncaught d1 = []"
    using checkServers_uncaught[of now "roomServers d" d] r u by (simp add: res_of_def)
  then have "d_uncaught (on_check_tick now d) = []"
    using r by (simp add: on_check_tick_def serverCheckLoop_def)
  then show ?thesis using u CheckTick by (simp add: d_step_def)
next
  case CallStop
  assume "d_uncaught d = []"
  then show ?thesis using CallStop by (simp add: d_step_def d_stop_def)
qed

lemma d_run_uncaught: "d_uncaught (d_run inputs) = []"
proof -
  have "\<And>d. d_uncaught d = [] \<Longrightarrow> d_uncaught (foldl d_step d inputs) = []"
    by (induction inputs) (simp_all add: d_step_uncaught)
  then show ?thesis by (simp add: d_run_def new_discovery_def)
qed

lemma put_server_same: "put_server ref (servers d ref, []) d = d"
  by (simp add: put_server_def)

lemma put_room_same:
  "map_of (sv_rooms (servers d ref)) key = Some room \<Longrightarrow> put_room ref key (room, []) d = d"
  by (simp add: put_room_def put_server_def update_triv)

text \<open>
  Claim C7. A ping whose payload does not ask for a reset and whose \<open>publicUrl\<close> is known
  only updates the record's \<open>clientCount\<close> and stamps \<open>lastPing\<close> with the current time.
  A ping with \<open>reset = true\<close>, or from an unknown \<open>publicUrl\<close>, first drops any record of
  that url, then binds the url to a new record with an empty room map, emits \<open>newServer\<close>
  with it and issues one \<open>rooms.<publicUrl>\<close> request with \<open>max = 1\<close>. The reply to that
  request consumes the request and hands the rooms of the reply to \<open>_addNewRoom\<close>, one
  after the other, on that record: when their ids differ and neither a room id nor a client
  id names a member of \<open>Object.prototype\<close>, the record then holds every room of the reply
  with its clients, while a room whose id names such a member is never added.
\<close>

theorem receiveServerPing_ingest:
  "(pg_reset server \<noteq> Some True \<and> map_of (roomServers d) (pg_publicUrl server) = Some ref \<longrightarrow>
      receiveServerPing now server d =
        d\<lparr>servers := (servers d)
             (ref := (servers d ref)\<lparr>sv_clientCount := pg_clientCount server, sv_lastPing := now\<rparr>)\<rparr>)
   \<and> (pg_reset server = Some True \<or> map_of (roomServers d) (pg_publicUrl server) = None \<longrightarrow>
      (let fresh = \<lparr>sv_publicUrl = pg_publicUrl server, sv_clientCount = pg_clientCount server,
                      sv_rooms = [], sv_lastPing = now\<rparr>;
           d' = receiveServerPing now server d
       in roomServers d' =
            AList.delete (pg_publicUrl server) (roomServers d) @ [(pg_publicUrl server, nextServer d)]
        \<and> servers d' = (servers d)(nextServer d := fresh)
        \<and> d_emitted d' = d_emitted d @ [NewServer fresh]
        \<and> d_requests d' = d_requests d @
             [\<lparr>rq_subject = ''rooms.'' @ pg_publicUrl server, rq_max = 1, rq_server = nextServer d\<rparr>]
        \<and> (\<forall>rooms.
             (let d'' = on_rooms_reply (length (d_requests d)) rooms d'
              in roomServers d'' = roomServers d'
               \<and> d_requests d'' = d_requests d
               \<and> servers d'' (nextServer d) =
                   foldl (\<lambda>roomServer room. fst (addNewRoom roomServer room)) fresh rooms
               \<and> (list_all plain_room rooms \<and> distinct (map rm_id rooms) \<longrightarrow>
                    sv_rooms (servers d'' (nextServer d)) =
                      map (\<lambda>room. (rm_id room, room\<lparr>rm_clients := own_entries (rm_clients room)\<rparr>))
                        rooms)))))
   \<and> (rm_id room \<in> set object_prototype \<longrightarrow> addNewRoom roomServer room = (roomServer, []))"
proof (intro conjI impI)
  assume "pg_reset server \<noteq> Some True \<and> map_of (roomServers d) (pg_publicUrl server) = Some ref"
  then show "receiveServerPing now server d =
        d\<lparr>servers := (servers d)
             (ref := (servers d ref)\<lparr>sv_clientCount := pg_clientCount server, sv_lastPing := now\<rparr>)\<rparr>"
    by (simp add: receiveServerPing_def)
next
  assume "rm_id room \<in> set object_prototype"
  then show "addNewRoom roomServer room = (roomServer, [])" by (rule addNewRoom_inherited)
next
  let ?url = "pg_publicUrl server"
  let ?fresh = "\<lparr>sv_publicUrl = ?url, sv_clientCount = pg_clientCount server,
                      sv_rooms = [], sv_lastPing = now\<rparr>"
  let ?d1 = "d\<lparr>roomServers := AList.delete ?url (roomServers d)\<rparr>"
  let ?d' = "receiveServerPing now server d"
  assume new: "pg_reset server = Some True \<or> map_of (roomServers d) ?url = None"
  have gone: "map_of (AList.delete ?url (roomServers d)) ?url = None"
    by (simp add: delete_conv')
  have same: "map_of (roomServers d) ?url = None \<Longrightarrow> AList.delete ?url (roomServers d) = roomServers d"
    by (simp add: map_of_eq_None_iff)
  have eq: "?d' = addNewServer ?fresh ?d1"
  proof (cases "pg_reset server = Some True")
    case True
    then show ?thesis using gone by (simp add: receiveServerPing_def)
  next
    case False
    then have "map_of (roomServers d) ?url = None" using new by simp
    then show ?thesis using False same by (simp add: receiveServerPing_def)
  qed
  have rs: "roomServers ?d' = AList.delete ?url (roomServers d) @ [(?url, nextServer d)]"
    unfolding eq using gone by (simp add: addNewServer_def Let_def update_absent)
  have sv: "servers ?d' = (servers d)(nextServer d := ?fresh)"
    unfolding eq by (simp add: addNewServer_def Let_def)
  have em: "d_emitted ?d' = d_emitted d @ [NewServer ?fresh]"
    unfolding eq by (simp add: addNewServer_def Let_def)
  have rq: "d_requests ?d' = d_requests d @
             [\<lparr>rq_subject = ''rooms.'' @ ?url, rq_max = 1, rq_server = nextServer d\<rparr>]"
    unfolding eq by (simp add: addNewServer_def Let_def)
  have reply: "roomServers (on_rooms_reply (length (d_requests d)) rooms ?d') = roomServers ?d'
      \<and> d_requests (on_rooms_reply (length (d_requests d)) rooms ?d') = d_requests d
      \<and> servers (on_rooms_reply (length (d_requests d)) rooms ?d') (nextServer d) =
          foldl (\<lambda>roomServer room. fst (addNewRoom roomServer room)) ?fresh rooms
      \<and> (list_all plain_room rooms \<and> distinct (map rm_id rooms) \<longrightarrow>
           sv_rooms (servers (on_rooms_reply (length (d_requests d)) rooms ?d') (nextServer d)) =
             map (\<lambda>room. (rm_id room, room\<lparr>rm_clients := own_entries (rm_clients room)\<rparr>)) rooms)"
    for rooms
  proof -
    let ?d2 = "?d'\<lparr>d_requests := d_requests d\<rparr>"
    have unf: "on_rooms_reply (length (d_requests d)) rooms ?d' = roomsCallback (nextServer d) rooms ?d2"
      by (simp add: on_rooms_reply_def rq)
    have start: "servers ?d2 (nextServer d) = ?fresh" by (simp add: sv)
    have empty: "sv_rooms (servers ?d2 (nextServer d)) = []" by (simp add: sv)
    have filled: "sv_rooms (servers (roomsCallback (nextServer d) rooms ?d2) (nextServer d)) =
          map (\<lambda>room. (rm_id room, room\<lparr>rm_clients := own_entries (rm_clients room)\<rparr>)) rooms"
      if wf: "list_all plain_room rooms \<and> distinct (map rm_id rooms)"
    proof -
      have "sv_rooms (servers (roomsCallback (nextServer d) rooms ?d2) (nextServer d)) =
          sv_rooms (servers ?d2 (nextServer d))
            @ map (\<lambda>room. (rm_id room, room\<lparr>rm_clients := own_entries (rm_clients room)\<rparr>)) rooms"
        using wf empty by (intro roomsCallback_fresh) simp_all
      then show ?thesis unfolding empty by simp
    qed
    have folded: "servers (roomsCallback (nextServer d) rooms ?d2) (nextServer d) =
        foldl (\<lambda>roomServer room. fst (addNewRoom roomServer room)) ?fresh rooms"
      unfolding roomsCallback_fold start ..
    show ?thesis
      unfolding unf using filled folded
      by (simp add: roomsCallback_requests roomsCallback_roomServers)
  qed
  show "(let fresh = ?fresh; d' = ?d'
       in roomServers d' =
            AList.delete (pg_publicUrl server) (roomServers d) @ [(pg_publicUrl server, nextServer d)]
        \<and> servers d' = (servers d)(nextServer d := fresh)
        \<and> d_emitted d' = d_emitted d @ [NewServer fresh]
        \<and> d_requests d' = d_requests d @
             [\<lparr>rq_subject = ''rooms.'' @ pg_publicUrl server, rq_max = 1, rq_server = nextServer d\<rparr>]
        \<and> (\<forall>rooms.
             (let d'' = on_rooms_reply (length (d_requests d)) rooms d'
              in roomServers d'' = roomServers d'
               \<and> d_requests d'' = d_requests d
               \<and> servers d'' (nextServer d) =
                   foldl (\<lambda>roomServer room. fst (addNewRoom roomServer room)) fresh rooms
               \<and> (list_all plain_room rooms \<and> distinct (map rm_id rooms) \<longrightarrow>
                    sv_rooms (servers d'' (nextServer d)) =
                      map (\<lambda>room. (rm_id room, room\<lparr>rm_clients := own_entries (rm_clients room)\<rparr>))
                        rooms))))"
    unfolding Let_def using rs sv em rq reply by blast
qed

text \<open>
  An \<open>rs.event\<close> whose \<open>publicUrl\<close> names no known server record is dropped: no record is
  created, nothing is emitted or printed, the state is the one before. The same holds for a
  \<open>roomJoined\<close>, \<open>roomLeft\<close> or \<open>roomRemoved\<close> event of a known server whose \<open>roomId\<close>
  is neither a room of the record nor the name of a member of \<open>Object.prototype\<close>.
\<close>

lemma rs_event_missing_dropped:
  "(map_of (roomServers d) (ev_publicUrl event) = None \<longrightarrow>
      handleServerEvent event d = Returned d \<and> d_step d (BusRsEvent event) = d)
   \<and> (map_of (roomServers d) (ev_publicUrl event) = Some ref
       \<and> map_of (sv_rooms (servers d ref)) (ev_roomId event) = None
       \<and> ev_roomId event \<notin> set object_prototype
       \<and> ev_subject event \<in> {''roomJoined'', ''roomLeft'', ''roomRemoved''} \<longrightarrow>
      handleServerEvent event d = Returned d \<and> d_step d (BusRsEvent event) = d)"
  by (auto simp: handleServerEvent_def on_rs_event_def subscribed_def d_step_def Let_def js_get_def)

text \<open>
  Claim C10. Adding a room whose id is already on the server record, or a client whose id
  is already in the mirrored room, changes nothing and emits nothing, both at the level of
  \<open>_addNewRoom\<close> and \<open>_addNewClient\<close> and for the \<open>newRoom\<close> and \<open>roomJoined\<close> events
  that reach them. Whatever the bus, the timers and the application deliver, every
  server record holds each room id once and every mirrored room holds each client id once.
\<close>

theorem mirror_ids_unique:
  "(map_of (sv_rooms roomServer) (rm_id room) \<noteq> None \<longrightarrow>
      addNewRoom roomServer room = (roomServer, []))
   \<and> (map_of (rm_clients room') (cs_id client) \<noteq> None \<longrightarrow>
      addNewClient room' client = (room', []))
   \<and> (map_of (roomServers d) (ev_publicUrl event) = Some ref
       \<and> ev_subject event = ''newRoom''
       \<and> map_of (sv_rooms (servers d ref)) (ev_roomId event) \<noteq> None \<longrightarrow>
      d_step d (BusRsEvent event) = d)
   \<and> (map_of (roomServers d) (ev_publicUrl event) = Some ref
       \<and> ev_subject event = ''roomJoined''
       \<and> map_of (sv_rooms (servers d ref)) (ev_roomId event) = Some room'
       \<and> ev_client event = Some client
       \<and> map_of (rm_clients room') (cs_id client) \<noteq> None \<longrightarrow>
      d_step d (BusRsEvent event) = d)
   \<and> mirror_ok (d_run inputs)
   \<and> (\<forall>ref'. server_ok (servers (d_run inputs) ref'))"
proof (intro conjI impI)
  show "\<forall>ref'. server_ok (servers (d_run inputs) ref')"
    using d_run_ok[of inputs] by (simp add: records_ok_def)
  then show "mirror_ok (d_run inputs)" by (auto simp: mirror_ok_def)
next
  assume "map_of (sv_rooms roomServer) (rm_id room) \<noteq> None"
  then show "addNewRoom roomServer room = (roomServer, [])"
    by (auto simp: addNewRoom_def js_get_def)
next
  assume "map_of (rm_clients room') (cs_id client) \<noteq> None"
  then show "addNewClient room' client = (room', [])"
    by (auto simp: addNewClient_def js_get_def)
next
  assume "map_of (roomServers d) (ev_publicUrl event) = Some ref
       \<and> ev_subject event = ''newRoom''
       \<and> map_of (sv_rooms (servers d ref)) (ev_roomId event) \<noteq> None"
  then show "d_step d (BusRsEvent event) = d"
    by (auto simp: d_step_def on_rs_event_def subscribed_def handleServerEvent_def Let_def
        addNewRoom_def js_get_def put_server_same)
next
  assume "map_of (roomServers d) (ev_publicUrl event) = Some ref
       \<and> ev_subject event = ''roomJoined''
       \<and> map_of (sv_rooms (servers d ref)) (ev_roomId event) = Some room'
       \<and> ev_client event = Some client
       \<and> map_of (rm_clients room') (cs_id client) \<noteq> None"
  then show "d_step d (BusRsEvent event) = d"
    by (auto simp: d_step_def on_rs_event_def subscribed_def handleServerEvent_def Let_def
        addNewClient_def js_get_def put_room_same)
qed

lemmas ex_defs = ex_ping_def ex_client_def ex_room_def ex_event_def ex_room_named_def

lemma ex_array_index: "\<not> array_index ''C1''" "\<not> array_index ''R1''" "\<not> array_index ''undefined''"
  by (simp_all add: array_index_def)

lemma ex_own: "own_keys [(''C1'', ex_client)] = [''C1'']"
  "own_values [(''C1'', ex_client)] = [ex_client]"
  "own_entries [(''C1'', ex_client)] = [(''C1'', ex_client)]"
  by (simp_all add: own_keys_def own_values_def own_entries_def ex_array_index)

lemma ex_discovery_eq:
  "ex_discovery =
     new_discovery\<lparr>roomServers := [(''rs-a'', 0)],
       servers := (servers new_discovery)
          (0 := \<lparr>sv_publicUrl = ''rs-a'', sv_clientCount = 1, sv_rooms = [(''R1'', ex_room)],
                 sv_lastPing = 1000\<rparr>),
       nextServer := 1,
       d_emitted := [NewServer \<lparr>sv_publicUrl = ''rs-a'', sv_clientCount = 1, sv_rooms = [],
                                sv_lastPing = 1000\<rparr>,
                     NewRoom (ex_room\<lparr>rm_clients := []\<rparr>),
                     RoomJoined ex_room ex_client]\<rparr>"
  by (simp add: ex_discovery_def d_run_def d_step_def new_discovery_def receiveServerPing_def
      addNewServer_def on_rooms_reply_def put_server_def addNewRoom_def addNewClient_def
      js_get_def js_set_def object_prototype_def ex_own[unfolded ex_client_def] ex_defs Let_def)

lemma ex_discovery_u_eq:
  "ex_discovery_u =
     ex_discovery\<lparr>
       servers := (servers ex_discovery)
          (0 := \<lparr>sv_publicUrl = ''rs-a'', sv_clientCount = 1,
                 sv_rooms = [(''R1'', ex_room), (''undefined'', ex_room_named ''undefined'')],
                 sv_lastPing = 1000\<rparr>),
       d_emitted := d_emitted ex_discovery @ [NewRoom (ex_room_named ''undefined'')]\<rparr>"
proof -
  have "ex_discovery_u =
      d_step ex_discovery (BusRsEvent (ex_event ''rs-a'' ''undefined'' ''newRoom'' None))"
    by (simp add: ex_discovery_u_def ex_discovery_def d_run_def)
  then show ?thesis
    by (simp add: ex_discovery_eq d_step_def new_discovery_def on_rs_event_def subscribed_def
        handleServerEvent_def put_server_def addNewRoom_def own_values_def own_keys_def
        js_get_def js_set_def object_prototype_def ex_defs Let_def)
qed

theorem receiveServerPing_ingest_witness:
  "getClientCount (receiveServerPing 2000 (ex_ping ''rs-a'' 3 None) ex_discovery) ''rs-a'' = Some 3
   \<and> sv_rooms (servers (receiveServerPing 2000 (ex_ping ''rs-a'' 3 None) ex_discovery) 0)
       = [(''R1'', ex_room)]
   \<and> roomServers (receiveServerPing 2000 (ex_ping ''rs-a'' 3 (Some True)) ex_discovery)
       = [(''rs-a'', 1)]
   \<and> list_all plain_room [ex_room]
   \<and> sv_rooms (servers (on_rooms_reply 0 [ex_room]
        (receiveServerPing 2000 (ex_ping ''rs-a'' 3 (Some True)) ex_discovery)) 1)
       = [(''R1'', ex_room)]
   \<and> addNewRoom (servers ex_discovery 0) (ex_room_named ''constructor'') = (servers ex_discovery 0, [])"
proof -
  have known: "pg_reset (ex_ping ''rs-a'' 3 None) \<noteq> Some True
      \<and> map_of (roomServers ex_discovery) (pg_publicUrl (ex_ping ''rs-a'' 3 None)) = Some 0"
    by (simp add: ex_discovery_eq ex_defs)
  have reset: "pg_reset (ex_ping ''rs-a'' 3 (Some True)) = Some True
      \<or> map_of (roomServers ex_discovery) (pg_publicUrl (ex_ping ''rs-a'' 3 (Some True))) = None"
    by (simp add: ex_defs)
  have wf: "list_all plain_room [ex_room]"
    by (simp add: plain_room_def plain_key_def object_prototype_def ex_defs)
  have wf2: "list_all plain_room [ex_room] \<and> distinct (map rm_id [ex_room])"
    using wf by simp
  have proto: "rm_id (ex_room_named ''constructor'') \<in> set object_prototype"
    by (simp add: ex_defs object_prototype_def)
  have nx: "nextServer ex_discovery = 1" "d_requests ex_discovery = []"
    by (simp_all add: ex_discovery_eq new_discovery_def)
  have ent: "map (\<lambda>room. (rm_id room, room\<lparr>rm_clients := own_entries (rm_clients room)\<rparr>)) [ex_room]
      = [(''R1'', ex_room)]"
    by (simp add: ex_room_def ex_own)
  note w1 = receiveServerPing_ingest[of "ex_ping ''rs-a'' 3 None" ex_discovery 0 2000
      "ex_room_named ''constructor''" "servers ex_discovery 0"]
  note w2 = receiveServerPing_ingest[of "ex_ping ''rs-a'' 3 (Some True)" ex_discovery 0 2000
      "ex_room_named ''constructor''" "servers ex_discovery 0"]
  have a: "receiveServerPing 2000 (ex_ping ''rs-a'' 3 None) ex_discovery =
        ex_discovery\<lparr>servers := (servers ex_discovery)
             (0 := (servers ex_discovery 0)\<lparr>sv_clientCount := pg_clientCount (ex_ping ''rs-a'' 3 None),
                                              sv_lastPing := 2000\<rparr>)\<rparr>"
    using w1 known by (elim conjE) simp
  have c: "addNewRoom (servers ex_discovery 0) (ex_room_named ''constructor'') = (servers ex_discovery 0, [])"
    using w1 proto by (elim conjE) simp
  have b: "roomServers (receiveServerPing 2000 (ex_ping ''rs-a'' 3 (Some True)) ex_discovery) =
        AList.delete (pg_publicUrl (ex_ping ''rs-a'' 3 (Some True))) (roomServers ex_discovery)
          @ [(pg_publicUrl (ex_ping ''rs-a'' 3 (Some True)), nextServer ex_discovery)]
      \<and> (list_all plain_room [ex_room] \<and> distinct (map rm_id [ex_room]) \<longrightarrow>
           sv_rooms (servers (on_rooms_reply (length (d_requests ex_discovery)) [ex_room]
               (receiveServerPing 2000 (ex_ping ''rs-a'' 3 (Some True)) ex_discovery))
             (nextServer ex_discovery)) =
           map (\<lambda>room. (rm_id room, room\<lparr>rm_clients := own_entries (rm_clients room)\<rparr>)) [ex_room])"
    using w2 reset unfolding Let_def by (elim conjE) blast
  have b1: "roomServers (receiveServerPing 2000 (ex_ping ''rs-a'' 3 (Some True)) ex_discovery)
       = [(''rs-a'', 1)]"
    using b by (simp add: nx ex_discovery_eq ex_defs)
  have b2: "sv_rooms (servers (on_rooms_reply 0 [ex_room]
        (receiveServerPing 2000 (ex_ping ''rs-a'' 3 (Some True)) ex_discovery)) 1)
       = [(''R1'', ex_room)]"
    using b wf2 unfolding nx ent by simp
  have a1: "getClientCount (receiveServerPing 2000 (ex_ping ''rs-a'' 3 None) ex_discovery) ''rs-a'' = Some 3"
    unfolding a by (simp add: getClientCount_def ex_discovery_eq ex_defs)
  have a2: "sv_rooms (servers (receiveServerPing 2000 (ex_ping ''rs-a'' 3 None) ex_discovery) 0)
       = [(''R1'', ex_room)]"
    unfolding a by (simp add: ex_discovery_eq)
  show ?thesis
    using a1 a2 b1 b2 wf c by (intro conjI)
qed

text \<open>
  Claim C8. The claim holds of an unknown server, and of an unknown room under a name
  that \<open>Object.prototype\<close> does not have. It fails for a room id such as \<open>toString\<close> or
  \<open>constructor\<close>: \<open>roomServer.rooms[event.roomId]\<close> then finds the inherited member, the
  event is taken for one of a known room, \<open>roomJoined\<close> and \<open>roomLeft\<close> end in a
  \<open>TypeError\<close> that \<open>_subscribe\<close> prints on the console, and \<open>roomRemoved\<close> removes the room
  named \<open>undefined\<close>, emitting \<open>roomRemoved\<close> for it.
\<close>

theorem rs_event_inherited_room_not_dropped:
  "map_of (roomServers ex_discovery) ''rs-a'' = Some 0
   \<and> map_of (sv_rooms (servers ex_discovery 0)) ''toString'' = None
   \<and> d_step ex_discovery (BusRsEvent (ex_event ''rs-a'' ''toString'' ''roomJoined'' (Some ex_client)))
       = ex_discovery\<lparr>d_console := [TypeError]\<rparr>
   \<and> d_step ex_discovery (BusRsEvent (ex_event ''rs-a'' ''toString'' ''roomLeft'' (Some ex_client)))
       = ex_discovery\<lparr>d_console := [TypeError]\<rparr>
   \<and> map_of (roomServers ex_discovery_u) ''rs-a'' = Some 0
   \<and> map_of (sv_rooms (servers ex_discovery_u 0)) ''constructor'' = None
   \<and> map fst (sv_rooms (servers ex_discovery_u 0)) = [''R1'', ''undefined'']
   \<and> map fst (sv_rooms (servers
        (d_step ex_discovery_u (BusRsEvent (ex_event ''rs-a'' ''constructor'' ''roomRemoved'' None))) 0))
       = [''R1'']
   \<and> d_emitted (d_step ex_discovery_u (BusRsEvent (ex_event ''rs-a'' ''constructor'' ''roomRemoved'' None)))
       = d_emitted ex_discovery_u @ [RoomRemoved (ex_room_named ''undefined'')]"
proof -
  have a: "map_of (roomServers ex_discovery) ''rs-a'' = Some 0"
    "map_of (sv_rooms (servers ex_discovery 0)) ''toString'' = None"
    by (simp_all add: ex_discovery_eq)
  have b: "d_step ex_discovery (BusRsEvent (ex_event ''rs-a'' ''toString'' ''roomJoined'' (Some ex_client)))
       = ex_discovery\<lparr>d_console := [TypeError]\<rparr>"
    "d_step ex_discovery (BusRsEvent (ex_event ''rs-a'' ''toString'' ''roomLeft'' (Some ex_client)))
       = ex_discovery\<lparr>d_console := [TypeError]\<rparr>"
    by (simp_all add: ex_discovery_eq d_step_def new_discovery_def on_rs_event_def subscribed_def
        handleServerEvent_def js_get_def object_prototype_def ex_event_def Let_def)
  have c: "map_of (roomServers ex_discovery_u) ''rs-a'' = Some 0"
    "map_of (sv_rooms (servers ex_discovery_u 0)) ''constructor'' = None"
    "map fst (sv_rooms (servers ex_discovery_u 0)) = [''R1'', ''undefined'']"
    by (simp_all add: ex_discovery_u_eq ex_discovery_eq)
  have step: "d_step ex_discovery_u (BusRsEvent (ex_event ''rs-a'' ''constructor'' ''roomRemoved'' None))
      = put_server 0
          ((servers ex_discovery_u 0)\<lparr>sv_rooms := [(''R1'', ex_room)]\<rparr>,
           [RoomRemoved (ex_room_named ''undefined'')]) ex_discovery_u"
    by (simp add: ex_discovery_u_eq ex_discovery_eq d_step_def new_discovery_def on_rs_event_def
        subscribed_def handleServerEvent_def lift_server_def removeRoom_def own_keys_def
        js_get_def object_prototype_def ex_event_def ex_room_named_def Let_def)
  have d: "map fst (sv_rooms (servers
        (d_step ex_discovery_u (BusRsEvent (ex_event ''rs-a'' ''constructor'' ''roomRemoved'' None))) 0))
       = [''R1'']"
    "d_emitted (d_step ex_discovery_u (BusRsEvent (ex_event ''rs-a'' ''constructor'' ''roomRemoved'' None)))
       = d_emitted ex_discovery_u @ [RoomRemoved (ex_room_named ''undefined'')]"
    unfolding step by (simp_all add: put_server_def)
  show ?thesis using a b c d by blast
qed

theorem mirror_ids_unique_witness:
  "addNewRoom (servers ex_discovery 0) ex_room = (servers ex_discovery 0, [])
   \<and> addNewClient ex_room ex_client = (ex_room, [])
   \<and> d_step ex_discovery (BusRsEvent (ex_event ''rs-a'' ''R1'' ''newRoom'' None)) = ex_discovery
   \<and> d_step ex_discovery (BusRsEvent (ex_event ''rs-a'' ''R1'' ''roomJoined'' (Some ex_client))) = ex_discovery
   \<and> mirror_ok ex_discovery"
proof -
  have h1: "map_of (sv_rooms (servers ex_discovery 0)) (rm_id ex_room) \<noteq> None"
    by (simp add: ex_discovery_eq ex_defs)
  have h2: "map_of (rm_clients ex_room) (cs_id ex_client) \<noteq> None"
    by (simp add: ex_defs)
  have h3: "map_of (roomServers ex_discovery) (ev_publicUrl (ex_event ''rs-a'' ''R1'' ''newRoom'' None)) = Some 0
       \<and> ev_subject (ex_event ''rs-a'' ''R1'' ''newRoom'' None) = ''newRoom''
       \<and> map_of (sv_rooms (servers ex_discovery 0)) (ev_roomId (ex_event ''rs-a'' ''R1'' ''newRoom'' None)) \<noteq> None"
    by (simp add: ex_discovery_eq ex_defs)
  have h4: "map_of (roomServers ex_discovery)
         (ev_publicUrl (ex_event ''rs-a'' ''R1'' ''roomJoined'' (Some ex_client))) = Some 0
       \<and> ev_subject (ex_event ''rs-a'' ''R1'' ''roomJoined'' (Some ex_client)) = ''roomJoined''
       \<and> map_of (sv_rooms (servers ex_discovery 0))
           (ev_roomId (ex_event ''rs-a'' ''R1'' ''roomJoined'' (Some ex_client))) = Some ex_room
       \<and> ev_client (ex_event ''rs-a'' ''R1'' ''roomJoined'' (Some ex_client)) = Some ex_client
       \<and> map_of (rm_clients ex_room) (cs_id ex_client) \<noteq> None"
    by (simp add: ex_discovery_eq ex_defs)
  note t1 = mirror_ids_unique[of "servers ex_discovery 0" ex_room ex_room ex_client ex_discovery
      "ex_event ''rs-a'' ''R1'' ''newRoom'' None" 0
      "[BusPing 1000 (ex_ping ''rs-a'' 1 (Some True)), RoomsReply 0 [ex_room]]"]
  note t2 = mirror_ids_unique[of "servers ex_discovery 0" ex_room ex_room ex_client ex_discovery
      "ex_event ''rs-a'' ''R1'' ''roomJoined'' (Some ex_client)" 0
      "[BusPing 1000 (ex_ping ''rs-a'' 1 (Some True)), RoomsReply 0 [ex_room]]"]
  show ?thesis
    using t1 t2 h1 h2 h3 h4 unfolding ex_discovery_def[symmetric] by blast
qed

declare room_leave.simps [simp del] client_disconnect.simps [simp del]
  socket_emit_close.simps [simp del] disconnectClient.simps [simp del]

lemma auth_failed_fields:
  "sockets (auth_failed k message s) =
     (sockets s)(k := (sockets s k)\<lparr>sk_calls := sk_calls (sockets s k) @ [SockSend (envelope message), SockClose],
                                    readyState := (if readyState (sockets s k) = CLOSED then CLOSED else CLOSING)\<rparr>)"
  "rs_rooms (auth_failed k message s) = rs_rooms s"
  "roomObjs (auth_failed k message s) = roomObjs s"
  "clientObjs (auth_failed k message s) = clientObjs s"
  "rs_clientCount (auth_failed k message s) = rs_clientCount s"
  "rs_published (auth_failed k message s) = rs_published s"
  "rs_emitted (auth_failed k message s) = rs_emitted s"
  "nextRoom (auth_failed k message s) = nextRoom s"
  by (simp_all add: auth_failed_def socket_close_def socket_send_def upd_socket_def envelope_def)

text \<open>
  Claim C5. A first frame that verifies as a token whose \<open>publicUrl\<close> is not the server's
  own is answered with the envelope \<open>{error: "Authentication Failed", message: "The
  authentication token is intended for another room server."}\<close> and the socket is closed;
  \<open>clientCount\<close>, the room map, the rooms and the bus are as before.
\<close>

theorem wrong_server_rejected:
  assumes "verify data (rs_tokenSecret s) ''joinRoom'' = Some token"
    and "t_publicUrl token \<noteq> rs_publicUrl s"
  shows "sk_calls (sockets (handleClient verify k data s) k) =
           sk_calls (sockets s k) @
             [SockSend (JObj [(''error'', JStr ''Authentication Failed''),
                (''message'', JStr ''The authentication token is intended for another room server.'')]),
              SockClose]
       \<and> isClosing (handleClient verify k data s) k
       \<and> rs_clientCount (handleClient verify k data s) = rs_clientCount s
       \<and> rs_rooms (handleClient verify k data s) = rs_rooms s
       \<and> roomObjs (handleClient verify k data s) = roomObjs s
       \<and> rs_published (handleClient verify k data s) = rs_published s"
proof -
  have "handleClient verify k data s =
        auth_failed k ''The authentication token is intended for another room server.'' s"
    using assms by (simp add: handleClient_def authenticate_def)
  then show ?thesis
    by (simp add: auth_failed_fields envelope_def isClosing_def)
qed

text \<open>
  Claim C4. A first frame that verifies as a token for this server, naming an existing room
  that already holds a client with the token's \<open>clientId\<close>, is answered with the envelope
  whose message is \<open>"You are already connected to this room."\<close> and the socket is closed.
  The room map, every room (its members and their number), every client, every other socket
  and \<open>clientCount\<close> are as before, and no close handler is attached to the rejected socket.
\<close>

theorem duplicate_client_rejected:
  assumes "verify data (rs_tokenSecret s) ''joinRoom'' = Some token"
    and "t_publicUrl token = rs_publicUrl s"
    and "map_of (rs_rooms s) (t_roomId token) = Some r"
    and "hasClient (roomObjs s r) (t_clientId token)"
  shows "sk_calls (sockets (handleClient verify k data s) k) =
           sk_calls (sockets s k) @
             [SockSend (JObj [(''error'', JStr ''Authentication Failed''),
                (''message'', JStr ''You are already connected to this room.'')]),
              SockClose]
       \<and> isClosing (handleClient verify k data s) k
       \<and> sk_onCloseOnce (sockets (handleClient verify k data s) k) = sk_onCloseOnce (sockets s k)
       \<and> (\<forall>k'. k' \<noteq> k \<longrightarrow> sockets (handleClient verify k data s) k' = sockets s k')
       \<and> rs_rooms (handleClient verify k data s) = rs_rooms s
       \<and> roomObjs (handleClient verify k data s) = roomObjs s
       \<and> clientObjs (handleClient verify k data s) = clientObjs s
       \<and> rs_clientCount (handleClient verify k data s) = rs_clientCount s
       \<and> rs_published (handleClient verify k data s) = rs_published s"
proof -
  have "connectClient k token s = Inl (''You are already connected to this room.'', s)"
    using assms(3,4) by (simp add: connectClient_def getRoom_def)
  then have "handleClient verify k data s =
        auth_failed k ''You are already connected to this room.'' s"
    using assms(1,2) by (simp add: handleClient_def authenticate_def)
  then show ?thesis
    by (simp add: auth_failed_fields envelope_def isClosing_def)
qed

lemma connectClient_joinOnly:
  "connectClient k (token\<lparr>t_joinOnly := j\<rparr>) s = connectClient k token s"
  by (simp add: connectClient_def Let_def split: prod.splits)

text \<open>
  Claim C6. A first frame that verifies as a token for this server with \<open>joinOnly = true\<close>,
  naming a room that does not exist, still creates the room, with the token's
  \<open>roomProperties\<close> and the server's default room options, and joins the client into it:
  the room's only member is the new client, \<open>clientCount\<close> grows by one, nothing is sent
  to the socket, and admission does the same with the flag absent.
\<close>

theorem joinOnly_not_enforced:
  assumes "verify data (rs_tokenSecret s) ''joinRoom'' = Some token"
    and "t_joinOnly token = Some True"
    and "t_publicUrl token = rs_publicUrl s"
    and "map_of (rs_rooms s) (t_roomId token) = None"
  shows "map_of (rs_rooms (handleClient verify k data s)) (t_roomId token) = Some (nextRoom s)
       \<and> r_id (roomObjs (handleClient verify k data s) (nextRoom s)) = t_roomId token
       \<and> r_properties (roomObjs (handleClient verify k data s) (nextRoom s)) = t_roomProperties token
       \<and> r_options (roomObjs (handleClient verify k data s) (nextRoom s)) = defaults_room (rs_roomOptions s)
       \<and> r_clients (roomObjs (handleClient verify k data s) (nextRoom s)) = [(t_clientId token, k)]
       \<and> c_id (clientObjs (handleClient verify k data s) k) = t_clientId token
       \<and> sk_onCloseOnce (sockets (handleClient verify k data s) k) = Some (nextRoom s)
       \<and> sk_calls (sockets (handleClient verify k data s) k) = sk_calls (sockets s k)
       \<and> rs_clientCount (handleClient verify k data s) = rs_clientCount s + 1
       \<and> connectClient k token s = connectClient k (token\<lparr>t_joinOnly := None\<rparr>) s"
proof -
  let ?r = "nextRoom s"
  obtain s1 where g: "getRoom (t_roomId token) (t_roomProperties token) s = (?r, s1)"
    using assms(4) by (simp add: getRoom_def createRoom_def Let_def)
  have s1: "s1 = snd (createRoom (t_roomId token) (t_roomProperties token) s)"
    using g assms(4) by (simp add: getRoom_def)
  have room1: "r_id (roomObjs s1 ?r) = t_roomId token"
    "r_properties (roomObjs s1 ?r) = t_roomProperties token"
    "r_options (roomObjs s1 ?r) = defaults_room (rs_roomOptions s)"
    "r_clients (roomObjs s1 ?r) = []"
    unfolding s1 by (simp_all add: createRoom_def Let_def upd_room_def notify_def new_room_def)
  have rest1: "rs_rooms s1 = AList.update (t_roomId token) ?r (rs_rooms s)"
    "sockets s1 = sockets s" "rs_clientCount s1 = rs_clientCount s"
    unfolding s1 by (simp_all add: createRoom_def Let_def upd_room_def notify_def)
  let ?s2 = "new_client k (t_clientId token) (t_clientProperties token) s1"
  let ?s3 = "room_join ?r k ?s2"
  have c2: "c_id (clientObjs ?s2 k) = t_clientId token" "roomObjs ?s2 = roomObjs s1"
    "rs_rooms ?s2 = rs_rooms s1" "rs_clientCount ?s2 = rs_clientCount s1"
    "sk_calls (sockets ?s2 k) = sk_calls (sockets s k)"
    by (simp_all add: new_client_def upd_socket_def rest1)
  have nh: "\<not> hasClient (roomObjs s1 ?r) (t_clientId token)"
    by (simp add: hasClient_def room1)
  have j3: "r_clients (roomObjs ?s3 ?r) = [(t_clientId token, k)]"
    "r_id (roomObjs ?s3 ?r) = t_roomId token"
    "r_properties (roomObjs ?s3 ?r) = t_roomProperties token"
    "r_options (roomObjs ?s3 ?r) = defaults_room (rs_roomOptions s)"
    "rs_rooms ?s3 = rs_rooms s1" "rs_clientCount ?s3 = rs_clientCount s1"
    "clientObjs ?s3 = clientObjs ?s2" "sockets ?s3 = sockets ?s2"
    using nh by (simp_all add: room_join_def c2 room1 hasClient_def room_emit_def Let_def upd_room_def notify_def)
  have cc: "connectClient k token s =
      Inr (upd_socket k (\<lambda>sk. sk\<lparr>sk_onCloseOnce := Some ?r\<rparr>) (?s3\<lparr>rs_clientCount := rs_clientCount ?s3 + 1\<rparr>))"
    using g nh by (simp add: connectClient_def Let_def)
  have hc: "handleClient verify k data s =
      upd_socket k (\<lambda>sk. sk\<lparr>sk_onCloseOnce := Some ?r\<rparr>) (?s3\<lparr>rs_clientCount := rs_clientCount ?s3 + 1\<rparr>)"
    using assms(1,3) cc by (simp add: handleClient_def authenticate_def)
  show ?thesis
    unfolding hc connectClient_joinOnly
    by (simp add: upd_socket_def j3 c2 rest1 update_conv')
qed

lemmas store_defs = upd_room_def upd_socket_def upd_client_def

subsection \<open>Sums over the room map\<close>

lemma sum_rooms_upd_notin:
  "r \<notin> snd ` set al \<Longrightarrow>
   sum_list (map (\<lambda>(i, x). g ((f(r := v)) x)) al) = sum_list (map (\<lambda>(i, x). g (f x)) al)"
  by (induction al) auto

lemma sum_rooms_cong:
  "(\<And>i x. (i, x) \<in> set al \<Longrightarrow> f x = g x) \<Longrightarrow>
   sum_list (map (\<lambda>(i, x). f x) al) = sum_list (map (\<lambda>(i, x). g x) al)"
proof (induction al)
  case Nil
  then show ?case by simp
next
  case (Cons a al)
  obtain i x where a: "a = (i, x)" by (cases a)
  have "f x = g x" using Cons.prems[of i x] a by simp
  moreover have "sum_list (map (\<lambda>(i, x). f x) al) = sum_list (map (\<lambda>(i, x). g x) al)"
    using Cons.prems by (intro Cons.IH) auto
  ultimately show ?case using a by simp
qed

lemma sum_rooms_upd:
  fixes g :: "'a \<Rightarrow> int"
  shows "distinct (map snd al) \<Longrightarrow> (i0, r) \<in> set al \<Longrightarrow>
   sum_list (map (\<lambda>(i, x). g ((f(r := v)) x)) al) = sum_list (map (\<lambda>(i, x). g (f x)) al) - g (f r) + g v"
proof (induction al)
  case Nil
  then show ?case by simp
next
  case (Cons a al)
  obtain i x where a: "a = (i, x)" by (cases a)
  show ?case
  proof (cases "x = r")
    case True
    then have "r \<notin> snd ` set al" using Cons.prems(1) a by auto
    then show ?thesis using a True sum_rooms_upd_notin[of r al g f v] by simp
  next
    case False
    then have "(i0, r) \<in> set al" using Cons.prems(2) a by auto
    then show ?thesis using Cons a False by simp
  qed
qed

lemma sum_rooms_delete:
  fixes h :: "'k \<times> 'a \<Rightarrow> int"
  shows "distinct (map fst al) \<Longrightarrow> map_of al i = Some r \<Longrightarrow>
   sum_list (map h (AList.delete i al)) = sum_list (map h al) - h (i, r)"
proof (induction al)
  case Nil
  then show ?case by simp
next
  case (Cons a al)
  obtain j x where a: "a = (j, x)" by (cases a)
  show ?case
  proof (cases "j = i")
    case True
    then have "i \<notin> fst ` set al" using Cons.prems(1) a by auto
    then have "AList.delete i al = al" by simp
    then show ?thesis using a True Cons.prems(2) by simp
  next
    case False
    then show ?thesis using Cons a by simp
  qed
qed

lemma length_delete_present:
  "distinct (map fst al) \<Longrightarrow> map_of al i = Some v \<Longrightarrow>
   int (length (AList.delete i al)) = int (length al) - 1"
  using sum_rooms_delete[of al i v "\<lambda>_. 1"] by (simp add: sum_list_triv)

lemma distinct_snd_delete: "distinct (map snd al) \<Longrightarrow> distinct (map snd (AList.delete i al))"
  by (simp add: AList.delete_eq distinct_map_filter)

lemma map_of_snd_mem: "map_of al i = Some r \<Longrightarrow> r \<in> snd ` set al"
  by (force dest: map_of_SomeD)

lemma mem_map_of: "distinct (map fst al) \<Longrightarrow> (i, r) \<in> set al \<Longrightarrow> map_of al i = Some r"
  by simp

subsection \<open>Steps that leave the invariant's footprint alone\<close>

lemma rs_inv_frame:
  assumes "rs_inv s"
    and "rs_clientCount s' = rs_clientCount s" and "rs_rooms s' = rs_rooms s"
    and "nextRoom s' = nextRoom s"
    and "\<And>r. r_clients (roomObjs s' r) = r_clients (roomObjs s r)"
    and "\<And>r. r_id (roomObjs s' r) = r_id (roomObjs s r)"
    and "\<And>k. c_id (clientObjs s' k) = c_id (clientObjs s k)"
    and "\<And>k. sk_onCloseOnce (sockets s' k) = None
             \<or> sk_onCloseOnce (sockets s' k) = sk_onCloseOnce (sockets s k)"
  shows "rs_inv s'"
proof -
  have "count_ok s'" using assms(1,2,3,5)
    by (simp add: rs_inv_def count_ok_def total_clients_def room_clientCount_def)
  moreover have "rooms_wf s'" using assms(1,3,4,6)
    by (simp add: rs_inv_def rooms_wf_def)
  moreover have "members_wf s'" using assms(1,5)
    by (simp add: rs_inv_def members_wf_def)
  moreover have "handlers_wf s'"
    unfolding handlers_wf_def
  proof (intro allI impI)
    fix k r assume h: "sk_onCloseOnce (sockets s' k) = Some r"
    then have "sk_onCloseOnce (sockets s k) = Some r" using assms(8)[of k] by auto
    then show "r \<in> snd ` set (rs_rooms s') \<and>
        map_of (r_clients (roomObjs s' r)) (c_id (clientObjs s' k)) = Some k"
      using assms(1,3,5,7) by (simp add: rs_inv_def handlers_wf_def)
  qed
  ultimately show ?thesis by (simp add: rs_inv_def)
qed

lemma isClosing_cong: "sockets s' c = sockets s c \<Longrightarrow> isClosing s' c = isClosing s c"
  by (simp add: isClosing_def)

lemma client_disconnect_closing:
  "isClosing s c \<Longrightarrow> client_disconnect c s = client_removeAllListeners c s"
  by (simp add: client_disconnect.simps)

lemma room_leave_closing:
  "isClosing s c \<Longrightarrow>
   room_leave r c s =
     (if hasClient (roomObjs s r) (c_id (clientObjs s c))
      then client_removeAllListeners c
             (room_emit r (Left c)
                (upd_room r (\<lambda>rm. rm\<lparr>r_clients := AList.delete (c_id (clientObjs s c)) (r_clients rm)\<rparr>) s))
      else s)"
proof -
  assume cl: "isClosing s c"
  let ?s2 = "room_emit r (Left c)
                (upd_room r (\<lambda>rm. rm\<lparr>r_clients := AList.delete (c_id (clientObjs s c)) (r_clients rm)\<rparr>) s)"
  have "sockets ?s2 = sockets s"
    by (simp add: room_emit_def Let_def notify_def upd_room_def)
  then have "isClosing ?s2 c" using cl by (simp add: isClosing_def)
  then show ?thesis
    by (simp add: room_leave.simps Let_def client_disconnect_closing)
qed

text \<open>The footprint of \<open>rs_removeRoom\<close>.\<close>

lemma rs_removeRoom_proj:
  "rs_clientCount (rs_removeRoom r s) = rs_clientCount s"
  "nextRoom (rs_removeRoom r s) = nextRoom s"
  "sockets (rs_removeRoom r s) = sockets s"
  "clientObjs (rs_removeRoom r s) = clientObjs s"
  "r_clients (roomObjs (rs_removeRoom r s) r') = r_clients (roomObjs s r')"
  "r_id (roomObjs (rs_removeRoom r s) r') = r_id (roomObjs s r')"
  "r_emitted (roomObjs (rs_removeRoom r s) r') = r_emitted (roomObjs s r')"
  "rs_rooms (rs_removeRoom r s) = AList.delete (r_id (roomObjs s r)) (rs_rooms s)"
  by (simp_all add: rs_removeRoom_def Let_def clearPingInterval_def notify_def
      room_removeAllListeners_def upd_room_def map_of_eq_None_iff)

lemma rs_removeRoom_empty_inv:
  assumes inv: "rs_inv s" and empty: "r_clients (roomObjs s r) = []"
    and reg: "map_of (rs_rooms s) (r_id (roomObjs s r)) = Some r
              \<or> map_of (rs_rooms s) (r_id (roomObjs s r)) = None"
  shows "rs_inv (rs_removeRoom r s)"
proof (cases "map_of (rs_rooms s) (r_id (roomObjs s r))")
  case None
  then show ?thesis using inv by (simp add: rs_removeRoom_def)
next
  case (Some r0)
  then have here: "map_of (rs_rooms s) (r_id (roomObjs s r)) = Some r" using reg by simp
  let ?s' = "rs_removeRoom r s"
  let ?i = "r_id (roomObjs s r)"
  have wf: "rooms_wf s" and cnt: "count_ok s" and mem: "members_wf s" and hd: "handlers_wf s"
    using inv by (simp_all add: rs_inv_def)
  have d1: "distinct (map fst (rs_rooms s))" and d2: "distinct (map snd (rs_rooms s))"
    using wf by (simp_all add: rooms_wf_def)
  have "total_clients ?s' = total_clients s - int (room_clientCount (roomObjs s r))"
    unfolding total_clients_def
    using sum_rooms_delete[OF d1 here, of "\<lambda>(roomId, r). int (room_clientCount (roomObjs s r))"]
    by (simp add: rs_removeRoom_proj room_clientCount_def)
  then have c': "count_ok ?s'"
    using cnt empty by (simp add: count_ok_def rs_removeRoom_proj room_clientCount_def)
  have sub: "set (rs_rooms ?s') \<subseteq> set (rs_rooms s)"
    by (auto simp: rs_removeRoom_proj AList.delete_eq)
  have w': "rooms_wf ?s'"
    unfolding rooms_wf_def
    using wf sub d1 d2
    by (auto simp: rooms_wf_def rs_removeRoom_proj distinct_delete distinct_snd_delete)
  have m': "members_wf ?s'" using mem by (simp add: members_wf_def rs_removeRoom_proj)
  have h': "handlers_wf ?s'"
    unfolding handlers_wf_def
  proof (intro allI impI)
    fix k r' assume "sk_onCloseOnce (sockets ?s' k) = Some r'"
    then have h: "sk_onCloseOnce (sockets s k) = Some r'" by (simp add: rs_removeRoom_proj)
    then have reg': "r' \<in> snd ` set (rs_rooms s)"
      and mem': "map_of (r_clients (roomObjs s r')) (c_id (clientObjs s k)) = Some k"
      using hd by (auto simp: handlers_wf_def)
    have ne: "r' \<noteq> r" using mem' empty by auto
    obtain i' where i': "(i', r') \<in> set (rs_rooms s)" using reg' by auto
    have "(?i, r) \<in> set (rs_rooms s)" using here by (rule map_of_SomeD)
    then have "i' \<noteq> ?i" using i' ne d1 by (auto dest: mem_map_of[OF d1])
    then have "(i', r') \<in> set (rs_rooms ?s')"
      using i' by (auto simp: rs_removeRoom_proj AList.delete_eq)
    then show "r' \<in> snd ` set (rs_rooms ?s') \<and>
        map_of (r_clients (roomObjs ?s' r')) (c_id (clientObjs ?s' k)) = Some k"
      using mem' by (force simp: rs_removeRoom_proj)
  qed
  show ?thesis using c' w' m' h' by (simp add: rs_inv_def)
qed

text \<open>A member leaves a registered room: the sum and the counter both drop by one.\<close>

lemma leave_count_inv:
  assumes inv: "rs_inv s"
    and nohandler: "sk_onCloseOnce (sockets s c) = None"
    and reg: "r \<in> snd ` set (rs_rooms s)"
    and member: "map_of (r_clients (roomObjs s r)) (c_id (clientObjs s c)) = Some c"
    and cnt: "rs_clientCount s' = rs_clientCount s - 1"
    and rms: "rs_rooms s' = rs_rooms s" and nx: "nextRoom s' = nextRoom s"
    and cl: "\<And>r'. r_clients (roomObjs s' r') =
               (if r' = r then AList.delete (c_id (clientObjs s c)) (r_clients (roomObjs s r))
                else r_clients (roomObjs s r'))"
    and ids: "\<And>r'. r_id (roomObjs s' r') = r_id (roomObjs s r')"
    and cids: "\<And>k. c_id (clientObjs s' k) = c_id (clientObjs s k)"
    and hs: "\<And>k. sk_onCloseOnce (sockets s' k) = None
             \<or> sk_onCloseOnce (sockets s' k) = sk_onCloseOnce (sockets s k)"
  shows "rs_inv s'"
proof -
  have wf: "rooms_wf s" and c0: "count_ok s" and mem: "members_wf s" and hd: "handlers_wf s"
    using inv by (simp_all add: rs_inv_def)
  have d2: "distinct (map snd (rs_rooms s))" using wf by (simp add: rooms_wf_def)
  obtain i where i: "(i, r) \<in> set (rs_rooms s)" using reg by auto
  have dr: "distinct (map fst (r_clients (roomObjs s r)))" using mem by (simp add: members_wf_def)
  let ?f = "\<lambda>x. r_clients (roomObjs s x)"
  let ?v = "AList.delete (c_id (clientObjs s c)) (r_clients (roomObjs s r))"
  have fe: "(\<lambda>r'. r_clients (roomObjs s' r')) = ?f(r := ?v)" using cl by auto
  have "total_clients s' = sum_list (map (\<lambda>(i, x). int (length ((?f(r := ?v)) x))) (rs_rooms s))"
    unfolding total_clients_def room_clientCount_def rms fe[symmetric] by simp
  also have "\<dots> = sum_list (map (\<lambda>(i, x). int (length (?f x))) (rs_rooms s))
                   - int (length (?f r)) + int (length ?v)"
    using sum_rooms_upd[OF d2 i, of "\<lambda>l. int (length l)" ?f ?v] by simp
  also have "\<dots> = total_clients s - 1"
    using length_delete_present[OF dr member]
    by (simp add: total_clients_def room_clientCount_def)
  finally have c': "count_ok s'" using c0 cnt by (simp add: count_ok_def)
  have w': "rooms_wf s'" using wf rms nx ids by (simp add: rooms_wf_def)
  have m': "members_wf s'" using mem cl by (simp add: members_wf_def distinct_delete)
  have h': "handlers_wf s'"
    unfolding handlers_wf_def
  proof (intro allI impI)
    fix k r' assume "sk_onCloseOnce (sockets s' k) = Some r'"
    then have h: "sk_onCloseOnce (sockets s k) = Some r'" using hs[of k] by auto
    then have kc: "k \<noteq> c" using nohandler by auto
    have reg': "r' \<in> snd ` set (rs_rooms s)"
      and mem': "map_of (r_clients (roomObjs s r')) (c_id (clientObjs s k)) = Some k"
      using hd h by (auto simp: handlers_wf_def)
    have "map_of (r_clients (roomObjs s' r')) (c_id (clientObjs s k)) = Some k"
    proof (cases "r' = r")
      case True
      then have "c_id (clientObjs s k) \<noteq> c_id (clientObjs s c)"
        using mem' member kc by auto
      then show ?thesis using True mem' by (simp add: cl delete_conv')
    next
      case False
      then show ?thesis using mem' by (simp add: cl)
    qed
    then show "r' \<in> snd ` set (rs_rooms s') \<and>
        map_of (r_clients (roomObjs s' r')) (c_id (clientObjs s' k)) = Some k"
      using reg' by (simp add: rms cids)
  qed
  show ?thesis using c' w' m' h' by (simp add: rs_inv_def)
qed

lemma disconnectClient_inv:
  assumes inv: "rs_inv s" and closing: "isClosing s c"
    and nohandler: "sk_onCloseOnce (sockets s c) = None"
    and reg: "r \<in> snd ` set (rs_rooms s)"
    and member: "map_of (r_clients (roomObjs s r)) (c_id (clientObjs s c)) = Some c"
  shows "rs_inv (disconnectClient c r s)"
proof -
  let ?s1 = "room_leave r c s"
  let ?s2 = "?s1\<lparr>rs_clientCount := rs_clientCount ?s1 - 1\<rparr>"
  have has: "hasClient (roomObjs s r) (c_id (clientObjs s c))"
    using member by (simp add: hasClient_def)
  have s1: "?s1 = client_removeAllListeners c
             (room_emit r (Left c)
                (upd_room r (\<lambda>rm. rm\<lparr>r_clients := AList.delete (c_id (clientObjs s c)) (r_clients rm)\<rparr>) s))"
    using room_leave_closing[OF closing, of r] has by simp
  have inv2: "rs_inv ?s2"
    by (rule leave_count_inv[OF inv nohandler reg member])
       (simp_all add: s1 client_removeAllListeners_def socket_removeAllListeners_def
          room_emit_def Let_def notify_def store_defs)
  have wf: "rooms_wf s" using inv by (simp add: rs_inv_def)
  obtain i where i: "(i, r) \<in> set (rs_rooms s)" using reg by auto
  then have "r_id (roomObjs s r) = i" using wf by (auto simp: rooms_wf_def)
  then have "map_of (rs_rooms s) (r_id (roomObjs s r)) = Some r"
    using i wf by (simp add: rooms_wf_def)
  then have here2: "map_of (rs_rooms ?s2) (r_id (roomObjs ?s2 r)) = Some r"
    by (simp add: s1 client_removeAllListeners_def socket_removeAllListeners_def
          room_emit_def Let_def notify_def store_defs)
  have eq: "disconnectClient c r s =
      (if isEmpty (roomObjs ?s2 r) \<and> \<not> room_keepAlive (roomObjs ?s2 r)
       then rs_removeRoom r ?s2 else ?s2)"
    by (simp add: disconnectClient.simps Let_def)
  show ?thesis
  proof (cases "isEmpty (roomObjs ?s2 r) \<and> \<not> room_keepAlive (roomObjs ?s2 r)")
    case True
    then have "r_clients (roomObjs ?s2 r) = []" by (simp add: isEmpty_def room_clientCount_def)
    then have "rs_inv (rs_removeRoom r ?s2)"
      using rs_removeRoom_empty_inv[OF inv2] here2 by blast
    then show ?thesis using True unfolding eq by auto
  next
    case False
    then show ?thesis using inv2 unfolding eq by auto
  qed
qed

lemma socket_emit_close_inv:
  assumes inv: "rs_inv s" and closing: "isClosing s k"
  shows "rs_inv (socket_emit_close k s)"
proof (cases "sk_onCloseOnce (sockets s k)")
  case None
  then show ?thesis using inv by (simp add: socket_emit_close.simps)
next
  case (Some r)
  let ?s0 = "upd_socket k (\<lambda>sk. sk\<lparr>sk_onCloseOnce := None\<rparr>) s"
  have hd: "handlers_wf s" using inv by (simp add: rs_inv_def)
  have reg: "r \<in> snd ` set (rs_rooms ?s0)"
    and member: "map_of (r_clients (roomObjs ?s0 r)) (c_id (clientObjs ?s0 k)) = Some k"
    using hd Some by (auto simp: handlers_wf_def upd_socket_def)
  have inv0: "rs_inv ?s0" by (rule rs_inv_frame[OF inv]) (simp_all add: upd_socket_def)
  have cl0: "isClosing ?s0 k" using closing by (simp add: isClosing_def upd_socket_def)
  have nh: "sk_onCloseOnce (sockets ?s0 k) = None" by (simp add: upd_socket_def)
  show ?thesis
    using disconnectClient_inv[OF inv0 cl0 nh reg member] Some
    by (simp add: socket_emit_close.simps)
qed

lemma socket_removeAllListeners_inv: "rs_inv s \<Longrightarrow> rs_inv (client_removeAllListeners c s)"
  by (erule rs_inv_frame)
     (simp_all add: client_removeAllListeners_def socket_removeAllListeners_def upd_socket_def)

lemma client_terminate_inv: "rs_inv s \<Longrightarrow> rs_inv (client_terminate c s)"
proof -
  assume inv: "rs_inv s"
  show ?thesis
  proof (cases "isClosing s c")
    case True
    then show ?thesis using socket_removeAllListeners_inv[OF inv] by (simp add: client_terminate_def)
  next
    case False
    have inv1: "rs_inv (socket_terminate c s)"
      by (rule rs_inv_frame[OF inv]) (simp_all add: socket_terminate_def upd_socket_def)
    have cl1: "isClosing (socket_terminate c s) c"
      by (simp add: isClosing_def socket_terminate_def upd_socket_def)
    show ?thesis
      using False socket_removeAllListeners_inv[OF socket_emit_close_inv[OF inv1 cl1]]
      by (simp add: client_terminate_def)
  qed
qed

lemma client_ping_inv: "rs_inv s \<Longrightarrow> rs_inv (client_ping c limit s)"
proof -
  assume inv: "rs_inv s"
  have "rs_inv (socket_ping c (upd_client c (\<lambda>cl. cl\<lparr>c_missedPings := c_missedPings cl + 1\<rparr>) s))"
    by (rule rs_inv_frame[OF inv]) (simp_all add: socket_ping_def upd_socket_def upd_client_def)
  then show ?thesis using inv client_terminate_inv[OF inv] by (simp add: client_ping_def)
qed

lemma forEach_client_inv:
  assumes "\<And>c s'. rs_inv s' \<Longrightarrow> rs_inv (f c s')"
  shows "rs_inv s \<Longrightarrow> rs_inv (forEach_client f r entries s)"
proof (induction entries arbitrary: s)
  case Nil
  then show ?case by simp
next
  case (Cons e entries)
  obtain i c where e: "e = (i, c)" by (cases e)
  show ?case using Cons assms e by simp
qed

lemma pingClients_inv: "rs_inv s \<Longrightarrow> rs_inv (pingClients r s)"
  unfolding pingClients_def by (rule forEach_client_inv) (rule client_ping_inv)

lemma createRoom_proj:
  "fst (createRoom roomId properties s) = nextRoom s"
  "rs_clientCount (snd (createRoom roomId properties s)) = rs_clientCount s"
  "nextRoom (snd (createRoom roomId properties s)) = Suc (nextRoom s)"
  "sockets (snd (createRoom roomId properties s)) = sockets s"
  "clientObjs (snd (createRoom roomId properties s)) = clientObjs s"
  "rs_rooms (snd (createRoom roomId properties s)) = AList.update roomId (nextRoom s) (rs_rooms s)"
  "r_clients (roomObjs (snd (createRoom roomId properties s)) r) =
     (if r = nextRoom s then [] else r_clients (roomObjs s r))"
  "r_id (roomObjs (snd (createRoom roomId properties s)) r) =
     (if r = nextRoom s then roomId else r_id (roomObjs s r))"
  by (simp_all add: createRoom_def Let_def notify_def upd_room_def new_room_def)

lemma createRoom_inv:
  assumes inv: "rs_inv s" and absent: "map_of (rs_rooms s) roomId = None"
  shows "rs_inv (snd (createRoom roomId properties s))"
proof -
  let ?s' = "snd (createRoom roomId properties s)"
  let ?r = "nextRoom s"
  have wf: "rooms_wf s" and c0: "count_ok s" and mem: "members_wf s" and hd: "handlers_wf s"
    using inv by (simp_all add: rs_inv_def)
  have lt: "\<And>i r. (i, r) \<in> set (rs_rooms s) \<Longrightarrow> r < ?r \<and> r_id (roomObjs s r) = i"
    using wf by (auto simp: rooms_wf_def)
  have fresh: "?r \<notin> snd ` set (rs_rooms s)" using lt by force
  have rms: "rs_rooms ?s' = rs_rooms s @ [(roomId, ?r)]"
    using absent by (simp add: createRoom_proj update_absent)
  have same: "\<And>i x. (i, x) \<in> set (rs_rooms s) \<Longrightarrow>
      int (length (r_clients (roomObjs ?s' x))) = int (length (r_clients (roomObjs s x)))"
    using fresh by (force simp: createRoom_proj)
  have new: "r_clients (roomObjs ?s' ?r) = []" by (simp add: createRoom_proj)
  have "total_clients ?s' = total_clients s"
    unfolding total_clients_def room_clientCount_def rms
    using sum_rooms_cong[of "rs_rooms s" "\<lambda>x. int (length (r_clients (roomObjs ?s' x)))"
        "\<lambda>x. int (length (r_clients (roomObjs s x)))", OF same] new
    by simp
  then have c': "count_ok ?s'" using c0 by (simp add: count_ok_def createRoom_proj)
  have "roomId \<notin> fst ` set (rs_rooms s)" using absent by (simp add: map_of_eq_None_iff)
  then have w': "rooms_wf ?s'"
    using wf fresh lt unfolding rooms_wf_def rms
    by (auto simp: createRoom_proj less_Suc_eq)
  have m': "members_wf ?s'" using mem by (simp add: members_wf_def createRoom_proj)
  have h': "handlers_wf ?s'"
    unfolding handlers_wf_def
  proof (intro allI impI)
    fix k r' assume "sk_onCloseOnce (sockets ?s' k) = Some r'"
    then have h: "sk_onCloseOnce (sockets s k) = Some r'" by (simp add: createRoom_proj)
    then have reg': "r' \<in> snd ` set (rs_rooms s)"
      and mem': "map_of (r_clients (roomObjs s r')) (c_id (clientObjs s k)) = Some k"
      using hd by (auto simp: handlers_wf_def)
    have ne: "r' \<noteq> ?r" using reg' fresh by blast
    have "r' \<in> snd ` set (rs_rooms ?s')" using reg' by (auto simp: rms)
    moreover have "map_of (r_clients (roomObjs ?s' r')) (c_id (clientObjs ?s' k)) = Some k"
      using mem' ne by (simp add: createRoom_proj)
    ultimately show "r' \<in> snd ` set (rs_rooms ?s') \<and>
        map_of (r_clients (roomObjs ?s' r')) (c_id (clientObjs ?s' k)) = Some k"
      by simp
  qed
  show ?thesis using c' w' m' h' by (simp add: rs_inv_def)
qed

lemma getRoom_inv:
  assumes inv: "rs_inv s"
  shows "rs_inv (snd (getRoom roomId properties s))
       \<and> fst (getRoom roomId properties s) \<in> snd ` set (rs_rooms (snd (getRoom roomId properties s)))"
proof (cases "map_of (rs_rooms s) roomId")
  case None
  then show ?thesis using createRoom_inv[OF inv None]
    by (simp add: getRoom_def createRoom_proj update_absent)
next
  case (Some r)
  then show ?thesis using inv by (simp add: getRoom_def map_of_snd_mem)
qed

text \<open>An admitted join: the new member and the counter both add one.\<close>

lemma join_count_inv:
  assumes inv: "rs_inv s" and reg: "r \<in> snd ` set (rs_rooms s)"
    and absent: "map_of (r_clients (roomObjs s r)) ident = None"
    and cnt: "rs_clientCount s' = rs_clientCount s + 1"
    and rms: "rs_rooms s' = rs_rooms s" and nx: "nextRoom s' = nextRoom s"
    and cl: "\<And>r'. r_clients (roomObjs s' r') =
               (if r' = r then r_clients (roomObjs s r) @ [(ident, k)]
                else r_clients (roomObjs s r'))"
    and ids: "\<And>r'. r_id (roomObjs s' r') = r_id (roomObjs s r')"
    and cids: "\<And>k'. c_id (clientObjs s' k') = (if k' = k then ident else c_id (clientObjs s k'))"
    and hs: "\<And>k'. sk_onCloseOnce (sockets s' k') =
               (if k' = k then Some r else sk_onCloseOnce (sockets s k'))"
  shows "rs_inv s'"
proof -
  have wf: "rooms_wf s" and c0: "count_ok s" and mem: "members_wf s" and hd: "handlers_wf s"
    using inv by (simp_all add: rs_inv_def)
  have d2: "distinct (map snd (rs_rooms s))" using wf by (simp add: rooms_wf_def)
  obtain i where i: "(i, r) \<in> set (rs_rooms s)" using reg by auto
  let ?f = "\<lambda>x. r_clients (roomObjs s x)"
  let ?v = "r_clients (roomObjs s r) @ [(ident, k)]"
  have fe: "(\<lambda>r'. r_clients (roomObjs s' r')) = ?f(r := ?v)" using cl by auto
  have "total_clients s' = sum_list (map (\<lambda>(i, x). int (length ((?f(r := ?v)) x))) (rs_rooms s))"
    unfolding total_clients_def room_clientCount_def rms fe[symmetric] by simp
  also have "\<dots> = sum_list (map (\<lambda>(i, x). int (length (?f x))) (rs_rooms s))
                   - int (length (?f r)) + int (length ?v)"
    using sum_rooms_upd[OF d2 i, of "\<lambda>l. int (length l)" ?f ?v] by simp
  also have "\<dots> = total_clients s + 1"
    by (simp add: total_clients_def room_clientCount_def)
  finally have c': "count_ok s'" using c0 cnt by (simp add: count_ok_def)
  have w': "rooms_wf s'" using wf rms nx ids by (simp add: rooms_wf_def)
  have "ident \<notin> fst ` set (r_clients (roomObjs s r))"
    using absent by (simp add: map_of_eq_None_iff)
  then have m': "members_wf s'" using mem cl by (auto simp: members_wf_def)
  have h': "handlers_wf s'"
    unfolding handlers_wf_def
  proof (intro allI impI)
    fix k' r' assume h': "sk_onCloseOnce (sockets s' k') = Some r'"
    show "r' \<in> snd ` set (rs_rooms s') \<and>
        map_of (r_clients (roomObjs s' r')) (c_id (clientObjs s' k')) = Some k'"
    proof (cases "k' = k")
      case True
      then have "r' = r" using h' hs[of k] by simp
      then show ?thesis using True reg absent by (simp add: rms cl cids map_add_def)
    next
      case False
      then have h: "sk_onCloseOnce (sockets s k') = Some r'" using h' hs[of k'] by simp
      then have reg': "r' \<in> snd ` set (rs_rooms s)"
        and mem': "map_of (r_clients (roomObjs s r')) (c_id (clientObjs s k')) = Some k'"
        using hd by (auto simp: handlers_wf_def)
      then show ?thesis using False by (auto simp: rms cl cids map_add_def split: option.splits)
    qed
  qed
  show ?thesis using c' w' m' h' by (simp add: rs_inv_def)
qed

lemma auth_failed_inv: "rs_inv s \<Longrightarrow> rs_inv (auth_failed k message s)"
  by (erule rs_inv_frame)
     (simp_all add: auth_failed_def socket_close_def socket_send_def upd_socket_def)

lemma connectClient_inv:
  assumes inv: "rs_inv s"
  shows "case connectClient k token s of Inl (message, s') \<Rightarrow> rs_inv s' | Inr s' \<Rightarrow> rs_inv s'"
proof -
  obtain r s1 where g: "getRoom (t_roomId token) (t_roomProperties token) s = (r, s1)"
    by (cases "getRoom (t_roomId token) (t_roomProperties token) s")
  have inv1: "rs_inv s1" and reg: "r \<in> snd ` set (rs_rooms s1)"
    using getRoom_inv[OF inv, of "t_roomId token" "t_roomProperties token"] g by simp_all
  show ?thesis
  proof (cases "hasClient (roomObjs s1 r) (t_clientId token)")
    case True
    then show ?thesis using g inv1 by (simp add: connectClient_def)
  next
    case False
    then have absent: "map_of (r_clients (roomObjs s1 r)) (t_clientId token) = None"
      by (simp add: hasClient_def)
    let ?s2 = "new_client k (t_clientId token) (t_clientProperties token) s1"
    let ?s3 = "room_join r k ?s2"
    let ?s' = "upd_socket k (\<lambda>sk. sk\<lparr>sk_onCloseOnce := Some r\<rparr>)
                 (?s3\<lparr>rs_clientCount := rs_clientCount ?s3 + 1\<rparr>)"
    have s3: "?s3 = room_emit r (Joined k)
        (upd_room r (\<lambda>rm. rm\<lparr>r_clients := r_clients rm @ [(t_clientId token, k)]\<rparr>) ?s2)"
      using absent
      by (simp add: room_join_def hasClient_def new_client_def store_defs update_absent)
    have p2: "rs_clientCount ?s2 = rs_clientCount s1" "rs_rooms ?s2 = rs_rooms s1"
      "nextRoom ?s2 = nextRoom s1" "roomObjs ?s2 = roomObjs s1"
      "\<And>k'. c_id (clientObjs ?s2 k') = (if k' = k then t_clientId token else c_id (clientObjs s1 k'))"
      "\<And>k'. sk_onCloseOnce (sockets ?s2 k') = sk_onCloseOnce (sockets s1 k')"
      by (simp_all add: new_client_def store_defs)
    have "rs_inv ?s'"
      by (rule join_count_inv[OF inv1 reg absent, of _ k])
         (simp_all add: s3 room_emit_def Let_def notify_def store_defs p2)
    then show ?thesis using g False by (simp add: connectClient_def Let_def)
  qed
qed

lemma handleClient_inv: "rs_inv s \<Longrightarrow> rs_inv (handleClient verify k data s)"
proof -
  assume inv: "rs_inv s"
  show ?thesis
  proof (cases "authenticate verify data s")
    case (Inl message)
    then show ?thesis using auth_failed_inv[OF inv] by (simp add: handleClient_def)
  next
    case (Inr token)
    show ?thesis
    proof (cases "connectClient k token s")
      case (Inl e)
      obtain message s' where e: "e = (message, s')" by (cases e)
      then have "rs_inv s'" using connectClient_inv[OF inv, of k token] Inl by simp
      then show ?thesis using Inr Inl e auth_failed_inv by (simp add: handleClient_def)
    next
      case r: (Inr s')
      then have "rs_inv s'" using connectClient_inv[OF inv, of k token] by simp
      then show ?thesis using Inr r by (simp add: handleClient_def)
    qed
  qed
qed

lemma rs_step_inv:
  assumes inv: "rs_inv s" and env: "env_input input"
  shows "rs_inv (rs_step verify s input)"
proof (cases input)
  case WsConnection
  have "rs_inv ((upd_socket (nextSocket s) (\<lambda>sk. sk\<lparr>sk_onMessageOnce := True\<rparr>) s)
             \<lparr>nextSocket := Suc (nextSocket s)\<rparr>)"
    by (rule rs_inv_frame[OF inv]) (simp_all add: upd_socket_def)
  then show ?thesis using WsConnection inv by simp
next
  case (SockMessage k data)
  have "rs_inv (upd_socket k (\<lambda>sk. sk\<lparr>sk_onMessageOnce := False\<rparr>) s)"
    by (rule rs_inv_frame[OF inv]) (simp_all add: upd_socket_def)
  then show ?thesis using SockMessage inv handleClient_inv by simp
next
  case (SockPong k)
  have "rs_inv (client_on_pong k s)"
    by (rule rs_inv_frame[OF inv]) (simp_all add: client_on_pong_def upd_client_def)
  then show ?thesis using SockPong inv by simp
next
  case (SockError k)
  then show ?thesis using inv client_terminate_inv by simp
next
  case (SockClosing k)
  have "rs_inv (upd_socket k (\<lambda>sk. sk\<lparr>readyState := CLOSING\<rparr>) s)"
    by (rule rs_inv_frame[OF inv]) (simp_all add: upd_socket_def)
  then show ?thesis using SockClosing inv by simp
next
  case (SockClosed k)
  let ?s0 = "upd_socket k (\<lambda>sk. sk\<lparr>readyState := CLOSED\<rparr>) s"
  have inv0: "rs_inv ?s0"
    by (rule rs_inv_frame[OF inv]) (simp_all add: upd_socket_def)
  have "isClosing ?s0 k" by (simp add: isClosing_def upd_socket_def)
  then show ?thesis using SockClosed inv socket_emit_close_inv[OF inv0] by simp
next
  case (RoomTick r)
  then show ?thesis using inv pingClients_inv by simp
next
  case PingTick
  have "rs_inv (sendPing False s)"
    by (rule rs_inv_frame[OF inv]) (simp_all add: sendPing_def)
  then show ?thesis using PingTick inv by simp
next
  case (BusRooms replyTo)
  have "rs_inv (sendRooms replyTo s)"
    by (rule rs_inv_frame[OF inv]) (simp_all add: sendRooms_def Let_def)
  then show ?thesis using BusRooms by simp
next
  case (BusBroadcastRs message)
  have "rs_inv (s\<lparr>rs_emitted := rs_emitted s @ [RsBroadcast message]\<rparr>)"
    by (rule rs_inv_frame[OF inv]) simp_all
  then show ?thesis using BusBroadcastRs by simp
next
  case (CallTerminate r)
  then show ?thesis using env by simp
next
  case CallStop
  then show ?thesis using env by simp
qed

lemma rs_run_inv:
  "rs_inv s \<Longrightarrow> list_all env_input inputs \<Longrightarrow> rs_inv (rs_run verify s inputs)"
  unfolding rs_run_def
  by (induction inputs arbitrary: s) (simp_all add: rs_step_inv)

lemma new_room_server_inv: "rs_inv (new_room_server publicUrl secret options)"
  by (simp add: rs_inv_def count_ok_def total_clients_def rooms_wf_def members_wf_def
      handlers_wf_def new_room_server_def new_room_def)

lemma removeRooms_rs_inv:
  "rs_inv s \<Longrightarrow> rooms_empty s \<Longrightarrow>
   rs_inv (removeRooms_rs entries s) \<and> rooms_empty (removeRooms_rs entries s)"
proof (induction entries arbitrary: s)
  case Nil
  then show ?case by simp
next
  case (Cons e entries)
  obtain i r where e: "e = (i, r)" by (cases e)
  show ?case
  proof (cases "map_of (rs_rooms s) i = Some r")
    case True
    have wf: "rooms_wf s" using Cons.prems(1) by (simp add: rs_inv_def)
    have mem: "(i, r) \<in> set (rs_rooms s)" using True by (rule map_of_SomeD)
    then have id: "r_id (roomObjs s r) = i" using wf by (auto simp: rooms_wf_def)
    have empty: "r_clients (roomObjs s r) = []" using Cons.prems(2) mem by (auto simp: rooms_empty_def)
    have inv': "rs_inv (rs_removeRoom r s)"
      using rs_removeRoom_empty_inv[OF Cons.prems(1) empty] True id by simp
    have "set (rs_rooms (rs_removeRoom r s)) \<subseteq> set (rs_rooms s)"
      by (auto simp: rs_removeRoom_proj AList.delete_eq)
    then have e': "rooms_empty (rs_removeRoom r s)"
      using Cons.prems(2) by (auto simp: rooms_empty_def rs_removeRoom_proj)
    show ?thesis using Cons.IH[OF inv' e'] True e by simp
  next
    case False
    then show ?thesis using Cons e by simp
  qed
qed

lemma rs_stop_inv: "rs_inv s \<Longrightarrow> rooms_empty s \<Longrightarrow> rs_inv (rs_stop s)"
proof -
  assume a: "rs_inv s" "rooms_empty s"
  have "rs_inv (removeRooms_rs (rs_rooms s) s)" using removeRooms_rs_inv[OF a] by simp
  then show ?thesis
    by (rule rs_inv_frame) (simp_all add: rs_stop_def Let_def)
qed




theorem wrong_server_rejected_witness:
  "ex_verify ''tok-B'' (rs_tokenSecret ex_rs1) ''joinRoom'' = Some (ex_token ''rs-b'' ''R1'' ''C1'' None)
   \<and> t_publicUrl (ex_token ''rs-b'' ''R1'' ''C1'' None) \<noteq> rs_publicUrl ex_rs1
   \<and> sk_calls (sockets (handleClient ex_verify 1 ''tok-B'' ex_rs1) 1) =
        sk_calls (sockets ex_rs1 1) @
          [SockSend (JObj [(''error'', JStr ''Authentication Failed''),
             (''message'', JStr ''The authentication token is intended for another room server.'')]),
           SockClose]
   \<and> rs_clientCount (handleClient ex_verify 1 ''tok-B'' ex_rs1) = rs_clientCount ex_rs1
   \<and> rs_rooms (handleClient ex_verify 1 ''tok-B'' ex_rs1) = rs_rooms ex_rs1"
proof -
  have h1: "ex_verify ''tok-B'' (rs_tokenSecret ex_rs1) ''joinRoom'' = Some (ex_token ''rs-b'' ''R1'' ''C1'' None)"
    by code_simp
  have h2: "t_publicUrl (ex_token ''rs-b'' ''R1'' ''C1'' None) \<noteq> rs_publicUrl ex_rs1"
    by code_simp
  show ?thesis
    using wrong_server_rejected[of ex_verify "''tok-B''" ex_rs1 "ex_token ''rs-b'' ''R1'' ''C1'' None" 1]
      h1 h2 by blast
qed

theorem duplicate_client_rejected_witness:
  "ex_verify ''tok-C1'' (rs_tokenSecret ex_rs1) ''joinRoom'' = Some (ex_token ''rs-a'' ''R1'' ''C1'' None)
   \<and> map_of (rs_rooms ex_rs1) (t_roomId (ex_token ''rs-a'' ''R1'' ''C1'' None)) = Some 0
   \<and> hasClient (roomObjs ex_rs1 0) (t_clientId (ex_token ''rs-a'' ''R1'' ''C1'' None))
   \<and> sk_calls (sockets (handleClient ex_verify 1 ''tok-C1'' ex_rs1) 1) =
        sk_calls (sockets ex_rs1 1) @
          [SockSend (JObj [(''error'', JStr ''Authentication Failed''),
             (''message'', JStr ''You are already connected to this room.'')]),
           SockClose]
   \<and> roomObjs (handleClient ex_verify 1 ''tok-C1'' ex_rs1) = roomObjs ex_rs1
   \<and> rs_clientCount (handleClient ex_verify 1 ''tok-C1'' ex_rs1) = rs_clientCount ex_rs1
   \<and> sockets (handleClient ex_verify 1 ''tok-C1'' ex_rs1) 0 = sockets ex_rs1 0"
proof -
  have h1: "ex_verify ''tok-C1'' (rs_tokenSecret ex_rs1) ''joinRoom'' = Some (ex_token ''rs-a'' ''R1'' ''C1'' None)"
    by code_simp
  have h2: "t_publicUrl (ex_token ''rs-a'' ''R1'' ''C1'' None) = rs_publicUrl ex_rs1"
    by code_simp
  have h3: "map_of (rs_rooms ex_rs1) (t_roomId (ex_token ''rs-a'' ''R1'' ''C1'' None)) = Some 0"
    by code_simp
  have h4: "hasClient (roomObjs ex_rs1 0) (t_clientId (ex_token ''rs-a'' ''R1'' ''C1'' None))"
    by code_simp
  show ?thesis
    using duplicate_client_rejected[of ex_verify "''tok-C1''" ex_rs1
        "ex_token ''rs-a'' ''R1'' ''C1'' None" 0 1] h1 h2 h3 h4 by auto
qed

theorem joinOnly_not_enforced_witness:
  "ex_verify ''tok-J'' (rs_tokenSecret ex_rs1) ''joinRoom'' = Some (ex_token ''rs-a'' ''R2'' ''C3'' (Some True))
   \<and> map_of (rs_rooms ex_rs1) (t_roomId (ex_token ''rs-a'' ''R2'' ''C3'' (Some True))) = None
   \<and> map_of (rs_rooms (handleClient ex_verify 1 ''tok-J'' ex_rs1)) ''R2'' = Some 1
   \<and> r_clients (roomObjs (handleClient ex_verify 1 ''tok-J'' ex_rs1) 1) = [(''C3'', 1)]
   \<and> rs_clientCount (handleClient ex_verify 1 ''tok-J'' ex_rs1) = 2"
proof -
  have h1: "ex_verify ''tok-J'' (rs_tokenSecret ex_rs1) ''joinRoom'' = Some (ex_token ''rs-a'' ''R2'' ''C3'' (Some True))"
    by code_simp
  have h2: "t_joinOnly (ex_token ''rs-a'' ''R2'' ''C3'' (Some True)) = Some True"
    by code_simp
  have h3: "t_publicUrl (ex_token ''rs-a'' ''R2'' ''C3'' (Some True)) = rs_publicUrl ex_rs1"
    by code_simp
  have h4: "map_of (rs_rooms ex_rs1) (t_roomId (ex_token ''rs-a'' ''R2'' ''C3'' (Some True))) = None"
    by code_simp
  have n1: "nextRoom ex_rs1 = 1" by code_simp
  have n2: "rs_clientCount ex_rs1 = 1" by code_simp
  have n3: "t_roomId (ex_token ''rs-a'' ''R2'' ''C3'' (Some True)) = ''R2''"
    "t_clientId (ex_token ''rs-a'' ''R2'' ''C3'' (Some True)) = ''C3''"
    by (simp_all add: ex_token_def)
  show ?thesis
    using joinOnly_not_enforced[of ex_verify "''tok-J''" ex_rs1
        "ex_token ''rs-a'' ''R2'' ''C3'' (Some True)" 1] h1 h2 h3 h4
    unfolding n1 n2 n3 by simp
qed

lemma rs_removeRoom_options:
  "r_options (roomObjs (rs_removeRoom r s) r') = r_options (roomObjs s r')"
  by (simp add: rs_removeRoom_def Let_def clearPingInterval_def notify_def
      room_removeAllListeners_def upd_room_def)

lemma disconnectClient_closing_proj:
  assumes "isClosing s c"
  shows "clientObjs (disconnectClient c r s) = clientObjs s"
    and "\<And>k. k \<noteq> c \<Longrightarrow> sockets (disconnectClient c r s) k = sockets s k"
    and "readyState (sockets (disconnectClient c r s) c) = readyState (sockets s c)"
    and "sk_calls (sockets (disconnectClient c r s) c) = sk_calls (sockets s c)"
    and "sk_onCloseOnce (sockets s c) = None \<Longrightarrow> sk_onCloseOnce (sockets (disconnectClient c r s) c) = None"
    and "\<And>r'. r_options (roomObjs (disconnectClient c r s) r') = r_options (roomObjs s r')"
    and "\<And>r'. r_id (roomObjs (disconnectClient c r s) r') = r_id (roomObjs s r')"
    and "\<And>r'. r' \<noteq> r \<Longrightarrow> r_clients (roomObjs (disconnectClient c r s) r') = r_clients (roomObjs s r')"
    and "\<And>r'. r' \<noteq> r \<Longrightarrow> r_emitted (roomObjs (disconnectClient c r s) r') = r_emitted (roomObjs s r')"
    and "r_clients (roomObjs (disconnectClient c r s) r) =
           AList.delete (c_id (clientObjs s c)) (r_clients (roomObjs s r))"
    and "r_emitted (roomObjs (disconnectClient c r s) r) =
           (if hasClient (roomObjs s r) (c_id (clientObjs s c))
            then r_emitted (roomObjs s r) @ [Left c] else r_emitted (roomObjs s r))"
    and "nextRoom (disconnectClient c r s) = nextRoom s"
    and "rs_clientCount (disconnectClient c r s) = rs_clientCount s - 1"
  using assms
  by (simp_all add: disconnectClient.simps room_leave_closing Let_def rs_removeRoom_proj
      rs_removeRoom_options client_removeAllListeners_def socket_removeAllListeners_def room_emit_def notify_def
      store_defs hasClient_def map_of_eq_None_iff)

lemma socket_emit_close_closing_proj:
  assumes "isClosing s k"
  shows "clientObjs (socket_emit_close k s) = clientObjs s"
    and "\<And>k'. k' \<noteq> k \<Longrightarrow> sockets (socket_emit_close k s) k' = sockets s k'"
    and "readyState (sockets (socket_emit_close k s) k) = readyState (sockets s k)"
    and "sk_calls (sockets (socket_emit_close k s) k) = sk_calls (sockets s k)"
    and "sk_onCloseOnce (sockets (socket_emit_close k s) k) = None"
    and "\<And>r'. r_options (roomObjs (socket_emit_close k s) r') = r_options (roomObjs s r')"
    and "\<And>r'. r_id (roomObjs (socket_emit_close k s) r') = r_id (roomObjs s r')"
    and "\<And>r'. r_clients (roomObjs (socket_emit_close k s) r') =
           (if sk_onCloseOnce (sockets s k) = Some r'
            then AList.delete (c_id (clientObjs s k)) (r_clients (roomObjs s r'))
            else r_clients (roomObjs s r'))"
    and "\<And>r'. r_emitted (roomObjs (socket_emit_close k s) r') =
           (if sk_onCloseOnce (sockets s k) = Some r' \<and> hasClient (roomObjs s r') (c_id (clientObjs s k))
            then r_emitted (roomObjs s r') @ [Left k] else r_emitted (roomObjs s r'))"
proof -
  let ?s0 = "upd_socket k (\<lambda>sk. sk\<lparr>sk_onCloseOnce := None\<rparr>) s"
  have cl0: "isClosing ?s0 k" using assms by (simp add: isClosing_def upd_socket_def)
  note p = disconnectClient_closing_proj[OF cl0]
  have nh: "sk_onCloseOnce (sockets ?s0 k) = None" by (simp add: upd_socket_def)
  have s0: "clientObjs ?s0 = clientObjs s" "roomObjs ?s0 = roomObjs s"
    "\<And>k'. k' \<noteq> k \<Longrightarrow> sockets ?s0 k' = sockets s k'"
    "readyState (sockets ?s0 k) = readyState (sockets s k)"
    "sk_calls (sockets ?s0 k) = sk_calls (sockets s k)"
    by (simp_all add: upd_socket_def)
  show "clientObjs (socket_emit_close k s) = clientObjs s"
    by (cases "sk_onCloseOnce (sockets s k)") (simp_all add: socket_emit_close.simps p s0)
  show "\<And>k'. k' \<noteq> k \<Longrightarrow> sockets (socket_emit_close k s) k' = sockets s k'"
    by (cases "sk_onCloseOnce (sockets s k)") (simp_all add: socket_emit_close.simps p s0)
  show "readyState (sockets (socket_emit_close k s) k) = readyState (sockets s k)"
    by (cases "sk_onCloseOnce (sockets s k)") (simp_all add: socket_emit_close.simps p s0)
  show "sk_calls (sockets (socket_emit_close k s) k) = sk_calls (sockets s k)"
    by (cases "sk_onCloseOnce (sockets s k)") (simp_all add: socket_emit_close.simps p s0)
  show "sk_onCloseOnce (sockets (socket_emit_close k s) k) = None"
    using p(5)[OF nh] by (cases "sk_onCloseOnce (sockets s k)") (simp_all add: socket_emit_close.simps)
  show "\<And>r'. r_options (roomObjs (socket_emit_close k s) r') = r_options (roomObjs s r')"
    by (cases "sk_onCloseOnce (sockets s k)") (simp_all add: socket_emit_close.simps p s0)
  show "\<And>r'. r_id (roomObjs (socket_emit_close k s) r') = r_id (roomObjs s r')"
    by (cases "sk_onCloseOnce (sockets s k)") (simp_all add: socket_emit_close.simps p s0)
  show "\<And>r'. r_clients (roomObjs (socket_emit_close k s) r') =
           (if sk_onCloseOnce (sockets s k) = Some r'
            then AList.delete (c_id (clientObjs s k)) (r_clients (roomObjs s r'))
            else r_clients (roomObjs s r'))"
  proof -
    fix r'
    show "r_clients (roomObjs (socket_emit_close k s) r') =
           (if sk_onCloseOnce (sockets s k) = Some r'
            then AList.delete (c_id (clientObjs s k)) (r_clients (roomObjs s r'))
            else r_clients (roomObjs s r'))"
    proof (cases "sk_onCloseOnce (sockets s k)")
      case None
      then show ?thesis by (simp add: socket_emit_close.simps)
    next
      case (Some r)
      then show ?thesis
        using p(8)[of r' r] p(10)[of r]
        by (cases "r' = r") (simp_all add: socket_emit_close.simps s0)
    qed
  qed
  show "\<And>r'. r_emitted (roomObjs (socket_emit_close k s) r') =
           (if sk_onCloseOnce (sockets s k) = Some r' \<and> hasClient (roomObjs s r') (c_id (clientObjs s k))
            then r_emitted (roomObjs s r') @ [Left k] else r_emitted (roomObjs s r'))"
  proof -
    fix r'
    show "r_emitted (roomObjs (socket_emit_close k s) r') =
           (if sk_onCloseOnce (sockets s k) = Some r' \<and> hasClient (roomObjs s r') (c_id (clientObjs s k))
            then r_emitted (roomObjs s r') @ [Left k] else r_emitted (roomObjs s r'))"
    proof (cases "sk_onCloseOnce (sockets s k)")
      case None
      then show ?thesis by (simp add: socket_emit_close.simps)
    next
      case (Some r)
      then show ?thesis
        using p(9)[of r' r] p(11)[of r]
        by (cases "r' = r") (simp_all add: socket_emit_close.simps s0)
    qed
  qed
qed

lemma client_terminate_open_proj:
  assumes "\<not> isClosing s c"
  shows "clientObjs (client_terminate c s) = clientObjs s"
    and "\<And>k. k \<noteq> c \<Longrightarrow> sockets (client_terminate c s) k = sockets s k"
    and "sockets (client_terminate c s) c =
           \<lparr>readyState = CLOSING, sk_calls = sk_calls (sockets s c) @ [SockTerminate],
            sk_onMessageOnce = False, sk_clientListeners = False, sk_onCloseOnce = None\<rparr>"
    and "\<And>r'. r_options (roomObjs (client_terminate c s) r') = r_options (roomObjs s r')"
    and "\<And>r'. r_clients (roomObjs (client_terminate c s) r') =
           (if sk_onCloseOnce (sockets s c) = Some r'
            then AList.delete (c_id (clientObjs s c)) (r_clients (roomObjs s r'))
            else r_clients (roomObjs s r'))"
    and "\<And>r'. r_emitted (roomObjs (client_terminate c s) r') =
           (if sk_onCloseOnce (sockets s c) = Some r' \<and> hasClient (roomObjs s r') (c_id (clientObjs s c))
            then r_emitted (roomObjs s r') @ [Left c] else r_emitted (roomObjs s r'))"
proof -
  let ?s1 = "socket_terminate c s"
  have cl1: "isClosing ?s1 c" by (simp add: isClosing_def socket_terminate_def upd_socket_def)
  note p = socket_emit_close_closing_proj[OF cl1]
  have eq: "client_terminate c s = client_removeAllListeners c (socket_emit_close c ?s1)"
    using assms by (simp add: client_terminate_def)
  have nc: "readyState (sockets s c) \<noteq> CLOSED" using assms by (auto simp: isClosing_def)
  have s1: "clientObjs ?s1 = clientObjs s" "roomObjs ?s1 = roomObjs s"
    "sk_onCloseOnce (sockets ?s1 c) = sk_onCloseOnce (sockets s c)"
    "readyState (sockets ?s1 c) = CLOSING"
    "sk_calls (sockets ?s1 c) = sk_calls (sockets s c) @ [SockTerminate]"
    "\<And>k. k \<noteq> c \<Longrightarrow> sockets ?s1 k = sockets s k"
    using nc by (simp_all add: socket_terminate_def upd_socket_def)
  show "clientObjs (client_terminate c s) = clientObjs s"
    by (simp add: eq client_removeAllListeners_def socket_removeAllListeners_def upd_socket_def p s1)
  show "\<And>k. k \<noteq> c \<Longrightarrow> sockets (client_terminate c s) k = sockets s k"
    by (simp add: eq client_removeAllListeners_def socket_removeAllListeners_def upd_socket_def p s1)
  show "sockets (client_terminate c s) c =
           \<lparr>readyState = CLOSING, sk_calls = sk_calls (sockets s c) @ [SockTerminate],
            sk_onMessageOnce = False, sk_clientListeners = False, sk_onCloseOnce = None\<rparr>"
    using p(3,4) s1(4,5)
    by (simp add: eq client_removeAllListeners_def socket_removeAllListeners_def upd_socket_def)
  show "\<And>r'. r_options (roomObjs (client_terminate c s) r') = r_options (roomObjs s r')"
    by (simp add: eq client_removeAllListeners_def socket_removeAllListeners_def upd_socket_def p s1)
  show "\<And>r'. r_clients (roomObjs (client_terminate c s) r') =
           (if sk_onCloseOnce (sockets s c) = Some r'
            then AList.delete (c_id (clientObjs s c)) (r_clients (roomObjs s r'))
            else r_clients (roomObjs s r'))"
    by (simp add: eq client_removeAllListeners_def socket_removeAllListeners_def upd_socket_def p s1)
  show "\<And>r'. r_emitted (roomObjs (client_terminate c s) r') =
           (if sk_onCloseOnce (sockets s c) = Some r' \<and> hasClient (roomObjs s r') (c_id (clientObjs s c))
            then r_emitted (roomObjs s r') @ [Left c] else r_emitted (roomObjs s r'))"
    by (simp add: eq client_removeAllListeners_def socket_removeAllListeners_def upd_socket_def p s1)
qed

lemma client_ping_cases:
  "client_ping c lim s =
     (if isClosing s c then s
      else if ping_terminates s c lim then client_terminate c s
      else socket_ping c (upd_client c (\<lambda>cl. cl\<lparr>c_missedPings := c_missedPings cl + 1\<rparr>) s))"
  by (simp add: client_ping_def ping_terminates_def)

lemma ping_self:
  "(sockets (client_ping c lim s) c, clientObjs (client_ping c lim s) c) =
     ping_outcome lim (sockets s c, clientObjs s c)"
proof (cases "isClosing s c")
  case True
  then show ?thesis by (simp add: client_ping_cases ping_outcome_def isClosing_def)
next
  case False
  show ?thesis
  proof (cases "ping_terminates s c lim")
    case True
    then show ?thesis
      using False client_terminate_open_proj(1,3)[OF False]
      by (simp add: client_ping_cases ping_outcome_def isClosing_def ping_terminates_def)
  next
    case nt: False
    then show ?thesis
      using False
      by (simp add: client_ping_cases ping_outcome_def isClosing_def ping_terminates_def
          socket_ping_def store_defs)
  qed
qed

lemma ping_others:
  "k \<noteq> c \<Longrightarrow> sockets (client_ping c lim s) k = sockets s k
             \<and> clientObjs (client_ping c lim s) k = clientObjs s k"
proof (cases "isClosing s c")
  case True
  then show ?thesis by (simp add: client_ping_cases)
next
  case False
  assume "k \<noteq> c"
  then show ?thesis
    using False client_terminate_open_proj(1,2)[OF False]
    by (simp add: client_ping_cases socket_ping_def store_defs)
qed

lemma ping_options:
  "r_options (roomObjs (client_ping c lim s) r) = r_options (roomObjs s r)"
proof (cases "isClosing s c")
  case True
  then show ?thesis by (simp add: client_ping_cases)
next
  case False
  then show ?thesis
    using client_terminate_open_proj(4)[OF False]
    by (simp add: client_ping_cases socket_ping_def store_defs)
qed

lemma ping_clients:
  "r_clients (roomObjs (client_ping c lim s) r) =
     (if ping_terminates s c lim \<and> sk_onCloseOnce (sockets s c) = Some r
      then AList.delete (c_id (clientObjs s c)) (r_clients (roomObjs s r))
      else r_clients (roomObjs s r))"
proof (cases "isClosing s c")
  case True
  then show ?thesis by (simp add: client_ping_cases ping_terminates_def)
next
  case False
  then show ?thesis
    using client_terminate_open_proj(5)[OF False]
    by (simp add: client_ping_cases socket_ping_def store_defs)
qed

lemma ping_emitted:
  "r_emitted (roomObjs (client_ping c lim s) r) =
     (if ping_terminates s c lim \<and> sk_onCloseOnce (sockets s c) = Some r
         \<and> hasClient (roomObjs s r) (c_id (clientObjs s c))
      then r_emitted (roomObjs s r) @ [Left c]
      else r_emitted (roomObjs s r))"
proof (cases "isClosing s c")
  case True
  then show ?thesis by (simp add: client_ping_cases ping_terminates_def)
next
  case False
  then show ?thesis
    using client_terminate_open_proj(6)[OF False]
    by (simp add: client_ping_cases socket_ping_def store_defs)
qed

lemma ping_member_frame:
  assumes "handlers_wf s" and "k \<noteq> c" and "map_of (r_clients (roomObjs s r)) i = Some k"
  shows "map_of (r_clients (roomObjs (client_ping c lim s) r)) i = Some k"
proof (cases "ping_terminates s c lim \<and> sk_onCloseOnce (sockets s c) = Some r")
  case True
  then have "map_of (r_clients (roomObjs s r)) (c_id (clientObjs s c)) = Some c"
    using assms(1) by (simp add: handlers_wf_def)
  then have "i \<noteq> c_id (clientObjs s c)" using assms(2,3) by auto
  then show ?thesis using True assms(3) by (simp add: ping_clients delete_conv')
next
  case False
  then show ?thesis using assms(3) by (auto simp: ping_clients)
qed

text \<open>One tick of the heartbeat visits every member once.\<close>

lemma forEach_ping:
  assumes "rs_inv s" and "distinct (map fst entries)" and "distinct (map snd entries)"
    and "\<forall>(i, c) \<in> set entries. map_of (r_clients (roomObjs s r)) i = Some c"
  shows "(\<forall>(i, c) \<in> set entries.
            (sockets (forEach_client (\<lambda>c s'. client_ping c (missedPingsLimit (r_options (roomObjs s' r))) s') r entries s) c,
             clientObjs (forEach_client (\<lambda>c s'. client_ping c (missedPingsLimit (r_options (roomObjs s' r))) s') r entries s) c)
            = ping_outcome (missedPingsLimit (r_options (roomObjs s r))) (sockets s c, clientObjs s c))
       \<and> (\<forall>k. k \<notin> snd ` set entries \<longrightarrow>
            sockets (forEach_client (\<lambda>c s'. client_ping c (missedPingsLimit (r_options (roomObjs s' r))) s') r entries s) k = sockets s k
            \<and> clientObjs (forEach_client (\<lambda>c s'. client_ping c (missedPingsLimit (r_options (roomObjs s' r))) s') r entries s) k = clientObjs s k)"
  using assms
proof (induction entries arbitrary: s)
  case Nil
  then show ?case by simp
next
  case (Cons e entries)
  obtain i0 c0 where e: "e = (i0, c0)" by (cases e)
  let ?f = "\<lambda>c s'. client_ping c (missedPingsLimit (r_options (roomObjs s' r))) s'"
  let ?lim = "missedPingsLimit (r_options (roomObjs s r))"
  let ?s1 = "client_ping c0 ?lim s"
  let ?sF = "forEach_client ?f r entries ?s1"
  have present: "map_of (r_clients (roomObjs s r)) i0 = Some c0" using Cons.prems(4) e by simp
  have unf: "forEach_client ?f r (e # entries) s = ?sF" using present e by simp
  have inv1: "rs_inv ?s1" using client_ping_inv[OF Cons.prems(1)] .
  have hw: "handlers_wf s" using Cons.prems(1) by (simp add: rs_inv_def)
  have notin: "c0 \<notin> snd ` set entries" using Cons.prems(3) e by force
  have still: "\<forall>(i, c) \<in> set entries. map_of (r_clients (roomObjs ?s1 r)) i = Some c"
  proof (clarify)
    fix i c assume m: "(i, c) \<in> set entries"
    then have "c \<noteq> c0" using notin by force
    moreover have "map_of (r_clients (roomObjs s r)) i = Some c" using Cons.prems(4) m by auto
    ultimately show "map_of (r_clients (roomObjs ?s1 r)) i = Some c"
      using ping_member_frame[OF hw] by simp
  qed
  have lim1: "missedPingsLimit (r_options (roomObjs ?s1 r)) = ?lim" by (simp add: ping_options)
  have ih: "(\<forall>(i, c) \<in> set entries.
            (sockets ?sF c, clientObjs ?sF c) = ping_outcome ?lim (sockets ?s1 c, clientObjs ?s1 c))
       \<and> (\<forall>k. k \<notin> snd ` set entries \<longrightarrow>
            sockets ?sF k = sockets ?s1 k \<and> clientObjs ?sF k = clientObjs ?s1 k)"
    using Cons.IH[OF inv1 _ _ still] Cons.prems(2,3) unfolding lim1 by simp
  have one: "(sockets ?sF c0, clientObjs ?sF c0) = ping_outcome ?lim (sockets s c0, clientObjs s c0)"
    using ih notin ping_self[of c0 ?lim s] by simp
  have rest: "\<forall>(i, c) \<in> set entries.
      (sockets ?sF c, clientObjs ?sF c) = ping_outcome ?lim (sockets s c, clientObjs s c)"
  proof (clarify)
    fix i c assume m: "(i, c) \<in> set entries"
    then have ne: "c \<noteq> c0" using notin by force
    have "(sockets ?sF c, clientObjs ?sF c) = ping_outcome ?lim (sockets ?s1 c, clientObjs ?s1 c)"
      using ih m by auto
    then show "(sockets ?sF c, clientObjs ?sF c) = ping_outcome ?lim (sockets s c, clientObjs s c)"
      using ping_others[OF ne, of ?lim s] by simp
  qed
  have others: "\<forall>k. k \<notin> snd ` set (e # entries) \<longrightarrow>
      sockets ?sF k = sockets s k \<and> clientObjs ?sF k = clientObjs s k"
  proof (intro allI impI)
    fix k assume "k \<notin> snd ` set (e # entries)"
    then have k: "k \<noteq> c0" "k \<notin> snd ` set entries" using e by auto
    then show "sockets ?sF k = sockets s k \<and> clientObjs ?sF k = clientObjs s k"
      using ih ping_others[OF k(1), of ?lim s] by simp
  qed
  show ?case unfolding unf using one rest others e by simp
qed

lemma rs_removeRoom_timer:
  "r' \<noteq> r \<Longrightarrow> r_pingInterval (roomObjs (rs_removeRoom r s) r') = r_pingInterval (roomObjs s r')"
  by (simp add: rs_removeRoom_def Let_def clearPingInterval_def notify_def
      room_removeAllListeners_def upd_room_def)

lemma disconnectClient_timer:
  assumes "isClosing s c"
    and "r' \<noteq> r \<or> r_clients (roomObjs (disconnectClient c r s) r) \<noteq> []"
  shows "r_pingInterval (roomObjs (disconnectClient c r s) r') = r_pingInterval (roomObjs s r')"
proof -
  let ?s1 = "room_leave r c s"
  let ?s2 = "?s1\<lparr>rs_clientCount := rs_clientCount ?s1 - 1\<rparr>"
  have eq: "disconnectClient c r s =
      (if isEmpty (roomObjs ?s2 r) \<and> \<not> room_keepAlive (roomObjs ?s2 r)
       then rs_removeRoom r ?s2 else ?s2)"
    by (simp add: disconnectClient.simps Let_def)
  have t2: "r_pingInterval (roomObjs ?s2 r') = r_pingInterval (roomObjs s r')"
    using assms(1)
    by (simp add: room_leave_closing client_removeAllListeners_def socket_removeAllListeners_def
        room_emit_def Let_def notify_def store_defs)
  show ?thesis
  proof (cases "r' = r")
    case False
    then show ?thesis using t2 unfolding eq by (simp add: rs_removeRoom_timer)
  next
    case True
    then have ne: "r_clients (roomObjs (disconnectClient c r s) r) \<noteq> []" using assms(2) by simp
    have "\<not> isEmpty (roomObjs ?s2 r)"
    proof
      assume e: "isEmpty (roomObjs ?s2 r)"
      then have "r_clients (roomObjs ?s2 r) = []" by (simp add: isEmpty_def room_clientCount_def)
      then have "r_clients (roomObjs (disconnectClient c r s) r) = []"
        unfolding eq by (simp add: rs_removeRoom_proj)
      then show False using ne by simp
    qed
    then show ?thesis using t2 True unfolding eq by auto
  qed
qed

lemma ping_timer:
  assumes "r_clients (roomObjs (client_ping c lim s) r) \<noteq> []"
  shows "r_pingInterval (roomObjs (client_ping c lim s) r) = r_pingInterval (roomObjs s r)"
proof (cases "isClosing s c")
  case True
  then show ?thesis by (simp add: client_ping_cases)
next
  case False
  show ?thesis
  proof (cases "ping_terminates s c lim")
    case nt: False
    then show ?thesis using False by (simp add: client_ping_cases socket_ping_def store_defs)
  next
    case True
    let ?s1 = "socket_terminate c s"
    have cl1: "isClosing ?s1 c" by (simp add: isClosing_def socket_terminate_def upd_socket_def)
    have eq: "client_ping c lim s = client_removeAllListeners c (socket_emit_close c ?s1)"
      using False True by (simp add: client_ping_cases client_terminate_def)
    have rm: "\<And>x. roomObjs (client_removeAllListeners c x) = roomObjs x"
      by (simp add: client_removeAllListeners_def socket_removeAllListeners_def upd_socket_def)
    have r1: "roomObjs ?s1 = roomObjs s" by (simp add: socket_terminate_def upd_socket_def)
    show ?thesis
    proof (cases "sk_onCloseOnce (sockets ?s1 c)")
      case None
      then show ?thesis unfolding eq by (simp add: rm socket_emit_close.simps r1)
    next
      case (Some h)
      let ?s0 = "upd_socket c (\<lambda>sk. sk\<lparr>sk_onCloseOnce := None\<rparr>) ?s1"
      have cl0: "isClosing ?s0 c" using cl1 by (simp add: isClosing_def upd_socket_def)
      have e2: "socket_emit_close c ?s1 = disconnectClient c h ?s0"
        using Some by (simp add: socket_emit_close.simps)
      have r0: "roomObjs ?s0 = roomObjs s" by (simp add: upd_socket_def r1)
      have "r \<noteq> h \<or> r_clients (roomObjs (disconnectClient c h ?s0) h) \<noteq> []"
        using assms unfolding eq e2 rm by auto
      from disconnectClient_timer[OF cl0 this]
      show ?thesis unfolding eq e2 rm r0 .
    qed
  qed
qed

lemma ping_distinct_snd:
  "distinct (map snd (r_clients (roomObjs s r))) \<Longrightarrow>
   distinct (map snd (r_clients (roomObjs (client_ping c lim s) r)))"
  by (simp add: ping_clients distinct_snd_delete)

lemma map_of_Some_nonempty: "map_of al i = Some v \<Longrightarrow> al \<noteq> []"
  by auto

lemma ping_keeps:
  assumes "tick_keeps r i c s0 s"
    and "c' \<noteq> c \<or> \<not> ping_terminates s c lim"
  shows "tick_keeps r i c s0 (client_ping c' lim s)"
proof -
  have inv: "rs_inv s" and mem: "map_of (r_clients (roomObjs s r)) i = Some c"
    and d: "distinct (map snd (r_clients (roomObjs s r)))"
    and o: "r_options (roomObjs s r) = r_options (roomObjs s0 r)"
    and t: "r_pingInterval (roomObjs s r) = r_pingInterval (roomObjs s0 r)"
    using assms(1) by (simp_all add: tick_keeps_def)
  have hw: "handlers_wf s" using inv by (simp add: rs_inv_def)
  have mem': "map_of (r_clients (roomObjs (client_ping c' lim s) r)) i = Some c"
  proof (cases "c' = c")
    case True
    then have "\<not> ping_terminates s c lim" using assms(2) by simp
    then show ?thesis using True mem by (simp add: ping_clients)
  next
    case False
    then show ?thesis using ping_member_frame[OF hw _ mem, of c' lim] by simp
  qed
  have "r_pingInterval (roomObjs (client_ping c' lim s) r) = r_pingInterval (roomObjs s r)"
    using ping_timer[OF map_of_Some_nonempty[OF mem']] .
  then show ?thesis
    using client_ping_inv[OF inv] mem' ping_distinct_snd[OF d] o t
    by (simp add: tick_keeps_def ping_options)
qed

lemma ping_terminates_cong:
  "sockets s' c = sockets s c \<Longrightarrow> clientObjs s' c = clientObjs s c \<Longrightarrow>
   ping_terminates s' c lim = ping_terminates s c lim"
  by (simp add: ping_terminates_def isClosing_def split: option.splits)

lemma forEach_keeps:
  assumes "tick_keeps r i c s0 s" and "distinct (map snd entries)"
    and "r_options (roomObjs s0 r) = r_options (roomObjs s r0)"
    and "c \<in> snd ` set entries \<longrightarrow>
           \<not> ping_terminates s c (missedPingsLimit (r_options (roomObjs s0 r)))"
    and "r0 = r"
  shows "tick_keeps r i c s0
           (forEach_client (\<lambda>c s'. client_ping c (missedPingsLimit (r_options (roomObjs s' r0))) s')
              r0 entries s)"
  using assms
proof (induction entries arbitrary: s)
  case Nil
  then show ?case by simp
next
  case (Cons e entries)
  obtain i0 c0 where e: "e = (i0, c0)" by (cases e)
  let ?lim = "missedPingsLimit (r_options (roomObjs s0 r))"
  have o: "r_options (roomObjs s r) = r_options (roomObjs s0 r)"
    using Cons.prems(1) by (simp add: tick_keeps_def)
  let ?s1 = "if map_of (r_clients (roomObjs s r)) i0 = Some c0 then client_ping c0 ?lim s else s"
  have unf: "forEach_client (\<lambda>c s'. client_ping c (missedPingsLimit (r_options (roomObjs s' r0))) s')
              r0 (e # entries) s =
             forEach_client (\<lambda>c s'. client_ping c (missedPingsLimit (r_options (roomObjs s' r0))) s')
              r0 entries ?s1"
    using e o Cons.prems(5) by simp
  have nt: "c0 \<noteq> c \<or> \<not> ping_terminates s c ?lim" using Cons.prems(4) e by auto
  have k1: "tick_keeps r i c s0 ?s1"
    using ping_keeps[OF Cons.prems(1) nt] Cons.prems(1) by simp
  have o1: "r_options (roomObjs s0 r) = r_options (roomObjs ?s1 r0)"
    using k1 Cons.prems(5) by (simp add: tick_keeps_def)
  have later: "c \<in> snd ` set entries \<longrightarrow> \<not> ping_terminates ?s1 c ?lim"
  proof
    assume cin: "c \<in> snd ` set entries"
    then have ne: "c \<noteq> c0" using Cons.prems(2) e by force
    have "\<not> ping_terminates s c ?lim" using Cons.prems(4) cin by simp
    then show "\<not> ping_terminates ?s1 c ?lim"
      using ping_others[OF ne, of ?lim s] ping_terminates_cong[of "client_ping c0 ?lim s" c s ?lim]
      by simp
  qed
  show ?case
    unfolding unf
    using Cons.IH[OF k1 _ o1 later Cons.prems(5)] Cons.prems(2) by simp
qed

lemma tick_keeps_refl:
  "rs_inv s \<Longrightarrow> map_of (r_clients (roomObjs s r)) i = Some c \<Longrightarrow>
   distinct (map snd (r_clients (roomObjs s r))) \<Longrightarrow> tick_keeps r i c s s"
  by (simp add: tick_keeps_def)

lemma tick_keeps_trans:
  "tick_keeps r i c s0 s1 \<Longrightarrow> tick_keeps r i c s1 s2 \<Longrightarrow> tick_keeps r i c s0 s2"
  by (simp add: tick_keeps_def)

lemma tick_member:
  assumes inv: "rs_inv s" and d: "distinct (map snd (r_clients (roomObjs s r)))"
    and mem: "map_of (r_clients (roomObjs s r)) i = Some c"
  shows "(sockets (pingClients r s) c, clientObjs (pingClients r s) c) =
           ping_outcome (missedPingsLimit (r_options (roomObjs s r))) (sockets s c, clientObjs s c)"
    and "\<not> ping_terminates s c (missedPingsLimit (r_options (roomObjs s r))) \<Longrightarrow>
           tick_keeps r i c s (pingClients r s)"
proof -
  have dk: "distinct (map fst (r_clients (roomObjs s r)))"
    using inv by (simp add: rs_inv_def members_wf_def)
  have all: "\<forall>(i, c) \<in> set (r_clients (roomObjs s r)). map_of (r_clients (roomObjs s r)) i = Some c"
    using dk by auto
  have cin: "(i, c) \<in> set (r_clients (roomObjs s r))" using mem by (rule map_of_SomeD)
  show "(sockets (pingClients r s) c, clientObjs (pingClients r s) c) =
           ping_outcome (missedPingsLimit (r_options (roomObjs s r))) (sockets s c, clientObjs s c)"
    using forEach_ping[OF inv dk d all] cin unfolding pingClients_def by blast
  assume nt: "\<not> ping_terminates s c (missedPingsLimit (r_options (roomObjs s r)))"
  show "tick_keeps r i c s (pingClients r s)"
    unfolding pingClients_def
    by (rule forEach_keeps[OF tick_keeps_refl[OF inv mem d] d]) (simp_all add: nt)
qed

lemma rs_run_snoc:
  "rs_run verify s (replicate (Suc n) input) = rs_step verify (rs_run verify s (replicate n input)) input"
proof -
  have "replicate (Suc n) input = replicate n input @ [input]"
    by (simp add: replicate_append_same)
  then show ?thesis by (simp only: rs_run_def foldl_append foldl.simps)
qed

lemma ticks_unanswered:
  assumes inv: "rs_inv s" and d: "distinct (map snd (r_clients (roomObjs s r)))"
    and mem: "map_of (r_clients (roomObjs s r)) i = Some c"
    and timer: "r_pingInterval (roomObjs s r)"
    and lim: "missedPingsLimit (r_options (roomObjs s r)) = Some (int L)"
    and opn: "\<not> isClosing s c"
    and zero: "c_missedPings (clientObjs s c) = 0"
  shows "n \<le> L \<Longrightarrow>
         tick_keeps r i c s (rs_run verify s (replicate n (RoomTick r)))
       \<and> sockets (rs_run verify s (replicate n (RoomTick r))) c =
           (sockets s c)\<lparr>sk_calls := sk_calls (sockets s c) @ replicate n SockPing\<rparr>
       \<and> clientObjs (rs_run verify s (replicate n (RoomTick r))) c =
           (clientObjs s c)\<lparr>c_missedPings := n\<rparr>"
proof (induction n)
  case 0
  then show ?case using tick_keeps_refl[OF inv mem d] zero by (simp add: rs_run_def)
next
  case (Suc n)
  let ?sn = "rs_run verify s (replicate n (RoomTick r))"
  have k: "tick_keeps r i c s ?sn"
    and sk: "sockets ?sn c = (sockets s c)\<lparr>sk_calls := sk_calls (sockets s c) @ replicate n SockPing\<rparr>"
    and cl: "clientObjs ?sn c = (clientObjs s c)\<lparr>c_missedPings := n\<rparr>"
    using Suc by simp_all
  have invn: "rs_inv ?sn" and memn: "map_of (r_clients (roomObjs ?sn r)) i = Some c"
    and dn: "distinct (map snd (r_clients (roomObjs ?sn r)))"
    and on: "r_options (roomObjs ?sn r) = r_options (roomObjs s r)"
    and tn: "r_pingInterval (roomObjs ?sn r)"
    using k timer by (simp_all add: tick_keeps_def)
  have limn: "missedPingsLimit (r_options (roomObjs ?sn r)) = Some (int L)" using on lim by simp
  have opn_n: "\<not> isClosing ?sn c" using opn sk by (simp add: isClosing_def)
  have nt: "\<not> ping_terminates ?sn c (missedPingsLimit (r_options (roomObjs ?sn r)))"
    using Suc.prems cl by (simp add: ping_terminates_def limn)
  have step: "rs_run verify s (replicate (Suc n) (RoomTick r)) = pingClients r ?sn"
    using tn by (simp only: rs_run_snoc rs_step.simps if_True)
  have out: "(sockets (pingClients r ?sn) c, clientObjs (pingClients r ?sn) c) =
      ping_outcome (Some (int L)) (sockets ?sn c, clientObjs ?sn c)"
    using tick_member(1)[OF invn dn memn] limn by simp
  have "ping_outcome (Some (int L)) (sockets ?sn c, clientObjs ?sn c) =
      ((sockets s c)\<lparr>sk_calls := sk_calls (sockets s c) @ replicate (Suc n) SockPing\<rparr>,
       (clientObjs s c)\<lparr>c_missedPings := Suc n\<rparr>)"
    using opn Suc.prems
    by (simp add: ping_outcome_def sk cl isClosing_def replicate_append_same)
  then have res: "sockets (pingClients r ?sn) c =
        (sockets s c)\<lparr>sk_calls := sk_calls (sockets s c) @ replicate (Suc n) SockPing\<rparr>"
      "clientObjs (pingClients r ?sn) c = (clientObjs s c)\<lparr>c_missedPings := Suc n\<rparr>"
    using out by simp_all
  have "tick_keeps r i c s (pingClients r ?sn)"
    using tick_keeps_trans[OF k tick_member(2)[OF invn dn memn nt]] .
  then show ?case unfolding step using res by simp
qed

lemma quiet_refl: "dead r s \<Longrightarrow> quiet r s s"
  by (simp add: quiet_def only_terminated_def)

lemma quiet_trans: "quiet r s s1 \<Longrightarrow> quiet r s1 s2 \<Longrightarrow> quiet r s s2"
  by (auto simp: quiet_def only_terminated_def)

lemma quiet_frame:
  assumes "dead r s"
    and "set (rs_rooms s') \<subseteq> set (rs_rooms s)" and "nextRoom s \<le> nextRoom s'"
    and "r_emitted (roomObjs s' r) = r_emitted (roomObjs s r)"
    and "\<And>k. sk_onCloseOnce (sockets s' k) = None
             \<or> sk_onCloseOnce (sockets s' k) = sk_onCloseOnce (sockets s k)"
  shows "quiet r s s'"
proof -
  have "\<And>k. sk_onCloseOnce (sockets s' k) \<noteq> Some r"
  proof -
    fix k
    have "sk_onCloseOnce (sockets s k) \<noteq> Some r" using assms(1) by (simp add: dead_def)
    then show "sk_onCloseOnce (sockets s' k) \<noteq> Some r" using assms(5)[of k] by auto
  qed
  moreover have "r \<notin> snd ` set (rs_rooms s')" using assms(1,2) by (auto simp: dead_def)
  moreover have "r < nextRoom s'" using assms(1,3) by (simp add: dead_def)
  ultimately show ?thesis using assms(4) by (simp add: quiet_def dead_def only_terminated_def)
qed

lemma rs_removeRoom_quiet: "dead r s \<Longrightarrow> quiet r s (rs_removeRoom r' s)"
  by (erule quiet_frame) (auto simp: rs_removeRoom_proj AList.delete_eq)

lemma disconnectClient_rooms:
  assumes "isClosing s c"
  shows "set (rs_rooms (disconnectClient c r s)) \<subseteq> set (rs_rooms s)"
  using assms
  by (auto simp: disconnectClient.simps room_leave_closing Let_def rs_removeRoom_proj
      client_removeAllListeners_def socket_removeAllListeners_def room_emit_def notify_def
      store_defs AList.delete_eq split: if_splits)

lemma socket_emit_close_rooms:
  assumes "isClosing s k"
  shows "set (rs_rooms (socket_emit_close k s)) \<subseteq> set (rs_rooms s)"
    and "nextRoom (socket_emit_close k s) = nextRoom s"
proof -
  let ?s0 = "upd_socket k (\<lambda>sk. sk\<lparr>sk_onCloseOnce := None\<rparr>) s"
  have cl0: "isClosing ?s0 k" using assms by (simp add: isClosing_def upd_socket_def)
  have r0: "rs_rooms ?s0 = rs_rooms s" "nextRoom ?s0 = nextRoom s" by (simp_all add: upd_socket_def)
  show "set (rs_rooms (socket_emit_close k s)) \<subseteq> set (rs_rooms s)"
    using disconnectClient_rooms[OF cl0] r0
    by (cases "sk_onCloseOnce (sockets s k)") (simp_all add: socket_emit_close.simps)
  show "nextRoom (socket_emit_close k s) = nextRoom s"
    using disconnectClient_closing_proj(12)[OF cl0] r0
    by (cases "sk_onCloseOnce (sockets s k)") (simp_all add: socket_emit_close.simps)
qed

lemma socket_emit_close_quiet:
  assumes "dead r s" and "isClosing s k"
  shows "quiet r s (socket_emit_close k s)"
proof (rule quiet_frame[OF assms(1)])
  note p = socket_emit_close_closing_proj[OF assms(2)]
  show "set (rs_rooms (socket_emit_close k s)) \<subseteq> set (rs_rooms s)"
    using socket_emit_close_rooms[OF assms(2)] by simp
  show "nextRoom s \<le> nextRoom (socket_emit_close k s)"
    using socket_emit_close_rooms[OF assms(2)] by simp
  show "r_emitted (roomObjs (socket_emit_close k s) r) = r_emitted (roomObjs s r)"
    using assms(1) by (simp add: p(9) dead_def)
  show "\<And>k'. sk_onCloseOnce (sockets (socket_emit_close k s) k') = None
             \<or> sk_onCloseOnce (sockets (socket_emit_close k s) k') = sk_onCloseOnce (sockets s k')"
    using p(2,5) by metis
qed

lemma quiet_then_frame:
  assumes "quiet r s s1"
    and "set (rs_rooms s2) \<subseteq> set (rs_rooms s1)" and "nextRoom s1 \<le> nextRoom s2"
    and "r_emitted (roomObjs s2 r) = r_emitted (roomObjs s1 r)"
    and "\<And>k. sk_onCloseOnce (sockets s2 k) = None
             \<or> sk_onCloseOnce (sockets s2 k) = sk_onCloseOnce (sockets s1 k)"
  shows "quiet r s s2"
proof -
  have "dead r s1" using assms(1) by (simp add: quiet_def)
  from quiet_trans[OF assms(1) quiet_frame[OF this assms(2,3,4,5)]] show ?thesis .
qed

lemma removeAllListeners_quiet: "quiet r s s1 \<Longrightarrow> quiet r s (client_removeAllListeners c s1)"
  by (erule quiet_then_frame)
     (simp_all add: client_removeAllListeners_def socket_removeAllListeners_def upd_socket_def)

lemma client_terminate_quiet: "dead r s \<Longrightarrow> quiet r s (client_terminate c s)"
proof -
  assume dd: "dead r s"
  show ?thesis
  proof (cases "isClosing s c")
    case True
    then show ?thesis using removeAllListeners_quiet[OF quiet_refl[OF dd]]
      by (simp add: client_terminate_def)
  next
    case False
    have q1: "quiet r s (socket_terminate c s)"
      by (rule quiet_frame[OF dd]) (simp_all add: socket_terminate_def upd_socket_def)
    have cl1: "isClosing (socket_terminate c s) c"
      by (simp add: isClosing_def socket_terminate_def upd_socket_def)
    have d1: "dead r (socket_terminate c s)" using q1 by (simp add: quiet_def)
    show ?thesis
      using False removeAllListeners_quiet[OF quiet_trans[OF q1 socket_emit_close_quiet[OF d1 cl1]]]
      by (simp add: client_terminate_def)
  qed
qed

lemma client_disconnect_quiet: "dead r s \<Longrightarrow> quiet r s (client_disconnect c s)"
proof -
  assume dd: "dead r s"
  show ?thesis
  proof (cases "isClosing s c")
    case True
    then show ?thesis using removeAllListeners_quiet[OF quiet_refl[OF dd]]
      by (simp add: client_disconnect.simps)
  next
    case False
    have q1: "quiet r s (socket_close c s)"
      by (rule quiet_frame[OF dd]) (simp_all add: socket_close_def upd_socket_def)
    have cl1: "isClosing (socket_close c s) c"
      by (simp add: isClosing_def socket_close_def upd_socket_def)
    have d1: "dead r (socket_close c s)" using q1 by (simp add: quiet_def)
    show ?thesis
      using False removeAllListeners_quiet[OF quiet_trans[OF q1 socket_emit_close_quiet[OF d1 cl1]]]
      by (simp add: client_disconnect.simps)
  qed
qed

lemma client_ping_quiet: "dead r s \<Longrightarrow> quiet r s (client_ping c lim s)"
proof -
  assume dd: "dead r s"
  have "quiet r s (socket_ping c (upd_client c (\<lambda>cl. cl\<lparr>c_missedPings := c_missedPings cl + 1\<rparr>) s))"
    by (rule quiet_frame[OF dd]) (simp_all add: socket_ping_def store_defs)
  then show ?thesis
    using quiet_refl[OF dd] client_terminate_quiet[OF dd] by (simp add: client_ping_def)
qed

lemma forEach_client_quiet:
  assumes "\<And>c s'. dead r s' \<Longrightarrow> quiet r s' (f c s')"
  shows "dead r s \<Longrightarrow> quiet r s (forEach_client f r' entries s)"
proof (induction entries arbitrary: s)
  case Nil
  then show ?case by (simp add: quiet_refl)
next
  case (Cons e entries)
  obtain i c where e: "e = (i, c)" by (cases e)
  let ?s1 = "if map_of (r_clients (roomObjs s r')) i = Some c then f c s else s"
  have q1: "quiet r s ?s1" using assms[OF Cons.prems] quiet_refl[OF Cons.prems] by simp
  then have "dead r ?s1" by (simp add: quiet_def)
  from quiet_trans[OF q1 Cons.IH[OF this]] show ?case using e by simp
qed

lemma createRoom_emitted:
  "r \<noteq> nextRoom s \<Longrightarrow>
   r_emitted (roomObjs (snd (createRoom roomId properties s)) r) = r_emitted (roomObjs s r)"
  by (simp add: createRoom_def Let_def notify_def upd_room_def)

lemma createRoom_quiet: "dead r s \<Longrightarrow> quiet r s (snd (createRoom roomId properties s))"
proof -
  assume dd: "dead r s"
  let ?s' = "snd (createRoom roomId properties s)"
  have ne: "r \<noteq> nextRoom s" using dd by (auto simp: dead_def)
  have "set (rs_rooms ?s') \<subseteq> insert (roomId, nextRoom s) (set (rs_rooms s))"
    using set_update_subset[of roomId "nextRoom s" "rs_rooms s"] by (simp add: createRoom_proj)
  then have "r \<notin> snd ` set (rs_rooms ?s')" using dd ne by (auto simp: dead_def)
  then have "dead r ?s'" using dd by (simp add: dead_def createRoom_proj)
  then show ?thesis by (simp add: quiet_def createRoom_emitted[OF ne] only_terminated_def)
qed

lemma getRoom_quiet:
  assumes "dead r s"
  shows "quiet r s (snd (getRoom roomId properties s))"
    and "fst (getRoom roomId properties s) \<noteq> r"
proof -
  show "quiet r s (snd (getRoom roomId properties s))"
    using createRoom_quiet[OF assms] quiet_refl[OF assms]
    by (simp add: getRoom_def split: option.splits)
  show "fst (getRoom roomId properties s) \<noteq> r"
  proof (cases "map_of (rs_rooms s) roomId")
    case None
    then show ?thesis using assms by (auto simp: getRoom_def createRoom_proj dead_def)
  next
    case (Some r')
    then have "r' \<in> snd ` set (rs_rooms s)" by (rule map_of_snd_mem)
    then show ?thesis using assms Some by (auto simp: getRoom_def dead_def)
  qed
qed

lemma connectClient_quiet:
  assumes dd: "dead r s"
  shows "case connectClient k token s of Inl (message, s') \<Rightarrow> quiet r s s' | Inr s' \<Rightarrow> quiet r s s'"
proof -
  obtain r' s1 where g: "getRoom (t_roomId token) (t_roomProperties token) s = (r', s1)"
    by (cases "getRoom (t_roomId token) (t_roomProperties token) s")
  have q1: "quiet r s s1" and ne: "r' \<noteq> r"
    using getRoom_quiet[OF dd, of "t_roomId token" "t_roomProperties token"] g by simp_all
  show ?thesis
  proof (cases "hasClient (roomObjs s1 r') (t_clientId token)")
    case True
    then show ?thesis using g q1 by (simp add: connectClient_def)
  next
    case False
    let ?s2 = "new_client k (t_clientId token) (t_clientProperties token) s1"
    let ?s3 = "room_join r' k ?s2"
    let ?s' = "upd_socket k (\<lambda>sk. sk\<lparr>sk_onCloseOnce := Some r'\<rparr>)
                 (?s3\<lparr>rs_clientCount := rs_clientCount ?s3 + 1\<rparr>)"
    have d1: "dead r s1" using q1 by (simp add: quiet_def)
    have p: "rs_rooms ?s' = rs_rooms s1" "nextRoom ?s' = nextRoom s1"
      "r_emitted (roomObjs ?s' r) = r_emitted (roomObjs s1 r)"
      "\<And>k'. sk_onCloseOnce (sockets ?s' k') =
          (if k' = k then Some r' else sk_onCloseOnce (sockets s1 k'))"
      using ne
      by (simp_all add: room_join_def room_emit_def Let_def notify_def new_client_def store_defs)
    have "dead r ?s'" using d1 ne by (simp add: dead_def p)
    then have "quiet r s1 ?s'" by (simp add: quiet_def p only_terminated_def)
    then have "quiet r s ?s'" using quiet_trans[OF q1] by simp
    then show ?thesis using g False by (simp add: connectClient_def Let_def)
  qed
qed

lemma auth_failed_quiet: "quiet r s s1 \<Longrightarrow> quiet r s (auth_failed k message s1)"
  by (erule quiet_then_frame)
     (simp_all add: auth_failed_def socket_close_def socket_send_def upd_socket_def)

lemma handleClient_quiet: "dead r s \<Longrightarrow> quiet r s (handleClient verify k data s)"
proof -
  assume dd: "dead r s"
  show ?thesis
  proof (cases "authenticate verify data s")
    case (Inl message)
    then show ?thesis using auth_failed_quiet[OF quiet_refl[OF dd]] by (simp add: handleClient_def)
  next
    case (Inr token)
    show ?thesis
    proof (cases "connectClient k token s")
      case (Inl e)
      obtain message s' where e: "e = (message, s')" by (cases e)
      then have "quiet r s s'" using connectClient_quiet[OF dd, of k token] Inl by simp
      then show ?thesis using Inr Inl e auth_failed_quiet by (simp add: handleClient_def)
    next
      case c: (Inr s')
      then have "quiet r s s'" using connectClient_quiet[OF dd, of k token] by simp
      then show ?thesis using Inr c by (simp add: handleClient_def)
    qed
  qed
qed

lemma room_emit_Terminated_quiet: "dead r s \<Longrightarrow> quiet r s (room_emit r' Terminated s)"
proof -
  assume dd: "dead r s"
  let ?s1 = "upd_room r' (\<lambda>rm. rm\<lparr>r_emitted := r_emitted rm @ [Terminated]\<rparr>) s"
  have d1: "dead r ?s1" using dd by (simp add: dead_def upd_room_def)
  have q1: "quiet r s ?s1"
    using d1 by (cases "r' = r") (auto simp: quiet_def only_terminated_def upd_room_def)
  show ?thesis
    using q1 quiet_trans[OF q1 rs_removeRoom_quiet[OF d1]]
    by (simp add: room_emit_def Let_def)
qed

lemma room_terminate_quiet: "dead r s \<Longrightarrow> quiet r s (room_terminate r' s)"
proof -
  assume dd: "dead r s"
  let ?sF = "forEach_client client_disconnect r' (r_clients (roomObjs s r')) s"
  have q1: "quiet r s ?sF"
    by (rule forEach_client_quiet[OF _ dd]) (rule client_disconnect_quiet)
  then have "dead r ?sF" by (simp add: quiet_def)
  from quiet_trans[OF q1 room_emit_Terminated_quiet[OF this]]
  show ?thesis by (simp add: room_terminate_def)
qed

lemma removeRooms_rs_quiet: "dead r s \<Longrightarrow> quiet r s (removeRooms_rs entries s)"
proof (induction entries arbitrary: s)
  case Nil
  then show ?case by (simp add: quiet_refl)
next
  case (Cons e entries)
  obtain i r' where e: "e = (i, r')" by (cases e)
  let ?s1 = "if map_of (rs_rooms s) i = Some r' then rs_removeRoom r' s else s"
  have q1: "quiet r s ?s1"
    using rs_removeRoom_quiet[OF Cons.prems] quiet_refl[OF Cons.prems] by simp
  then have "dead r ?s1" by (simp add: quiet_def)
  from quiet_trans[OF q1 Cons.IH[OF this]] show ?case using e by simp
qed

lemma rs_stop_quiet: "dead r s \<Longrightarrow> quiet r s (rs_stop s)"
proof -
  assume dd: "dead r s"
  show ?thesis
    by (rule quiet_then_frame[OF removeRooms_rs_quiet[OF dd, of "rs_rooms s"]])
       (simp_all add: rs_stop_def Let_def)
qed

lemma rs_step_quiet:
  assumes dd: "dead r s"
  shows "quiet r s (rs_step verify s input)"
proof (cases input)
  case WsConnection
  have "quiet r s ((upd_socket (nextSocket s) (\<lambda>sk. sk\<lparr>sk_onMessageOnce := True\<rparr>) s)
             \<lparr>nextSocket := Suc (nextSocket s)\<rparr>)"
    by (rule quiet_frame[OF dd]) (simp_all add: upd_socket_def)
  then show ?thesis using WsConnection quiet_refl[OF dd] by simp
next
  case (SockMessage k data)
  let ?s0 = "upd_socket k (\<lambda>sk. sk\<lparr>sk_onMessageOnce := False\<rparr>) s"
  have q0: "quiet r s ?s0"
    by (rule quiet_frame[OF dd]) (simp_all add: upd_socket_def)
  then have "dead r ?s0" by (simp add: quiet_def)
  from quiet_trans[OF q0 handleClient_quiet[OF this]]
  show ?thesis using SockMessage quiet_refl[OF dd] by simp
next
  case (SockPong k)
  have "quiet r s (client_on_pong k s)"
    by (rule quiet_frame[OF dd]) (simp_all add: client_on_pong_def upd_client_def)
  then show ?thesis using SockPong quiet_refl[OF dd] by simp
next
  case (SockError k)
  then show ?thesis using client_terminate_quiet[OF dd] quiet_refl[OF dd] by simp
next
  case (SockClosing k)
  have "quiet r s (upd_socket k (\<lambda>sk. sk\<lparr>readyState := CLOSING\<rparr>) s)"
    by (rule quiet_frame[OF dd]) (simp_all add: upd_socket_def)
  then show ?thesis using SockClosing quiet_refl[OF dd] by simp
next
  case (SockClosed k)
  let ?s0 = "upd_socket k (\<lambda>sk. sk\<lparr>readyState := CLOSED\<rparr>) s"
  have q0: "quiet r s ?s0"
    by (rule quiet_frame[OF dd]) (simp_all add: upd_socket_def)
  then have d0: "dead r ?s0" by (simp add: quiet_def)
  have "isClosing ?s0 k" by (simp add: isClosing_def upd_socket_def)
  from quiet_trans[OF q0 socket_emit_close_quiet[OF d0 this]]
  show ?thesis using SockClosed quiet_refl[OF dd] by simp
next
  case (RoomTick r')
  have "quiet r s (pingClients r' s)"
    unfolding pingClients_def
    by (rule forEach_client_quiet[OF _ dd]) (rule client_ping_quiet)
  then show ?thesis using RoomTick quiet_refl[OF dd] by simp
next
  case PingTick
  have "quiet r s (sendPing False s)"
    by (rule quiet_frame[OF dd]) (simp_all add: sendPing_def)
  then show ?thesis using PingTick quiet_refl[OF dd] by simp
next
  case (BusRooms replyTo)
  have "quiet r s (sendRooms replyTo s)"
    by (rule quiet_frame[OF dd]) (simp_all add: sendRooms_def Let_def)
  then show ?thesis using BusRooms by simp
next
  case (BusBroadcastRs message)
  have "quiet r s (s\<lparr>rs_emitted := rs_emitted s @ [RsBroadcast message]\<rparr>)"
    by (rule quiet_frame[OF dd]) simp_all
  then show ?thesis using BusBroadcastRs by simp
next
  case (CallTerminate r')
  then show ?thesis using room_terminate_quiet[OF dd] by simp
next
  case CallStop
  then show ?thesis using rs_stop_quiet[OF dd] by simp
qed

lemma rs_run_quiet: "dead r s \<Longrightarrow> quiet r s (rs_run verify s inputs)"
  unfolding rs_run_def
proof (induction inputs arbitrary: s)
  case Nil
  then show ?case by (simp add: quiet_refl)
next
  case (Cons input inputs)
  have q1: "quiet r s (rs_step verify s input)" using rs_step_quiet[OF Cons.prems] .
  then have "dead r (rs_step verify s input)" by (simp add: quiet_def)
  from quiet_trans[OF q1 Cons.IH[OF this]] show ?case by simp
qed

lemma rooms_wf_delete_own:
  assumes "rooms_wf s"
  shows "r \<notin> snd ` set (AList.delete (r_id (roomObjs s r)) (rs_rooms s))"
proof
  assume "r \<in> snd ` set (AList.delete (r_id (roomObjs s r)) (rs_rooms s))"
  then obtain i where i: "(i, r) \<in> set (rs_rooms s)" "i \<noteq> r_id (roomObjs s r)"
    by (auto simp: AList.delete_eq)
  then show False using assms by (auto simp: rooms_wf_def)
qed

lemma rs_removeRoom_listener:
  assumes wf: "rooms_wf s" and l: "listener_or_gone r s"
  shows "listener_or_gone r (rs_removeRoom h s)"
proof (cases "h = r")
  case True
  show ?thesis
  proof (cases "map_of (rs_rooms s) (r_id (roomObjs s r))")
    case None
    then show ?thesis using l True by (simp add: rs_removeRoom_def)
  next
    case (Some r0)
    then show ?thesis
      using True rooms_wf_delete_own[OF wf, of r]
      by (simp add: listener_or_gone_def rs_removeRoom_proj)
  qed
next
  case False
  have "r_terminatedListener (roomObjs (rs_removeRoom h s) r) = r_terminatedListener (roomObjs s r)"
    using False
    by (simp add: rs_removeRoom_def Let_def clearPingInterval_def notify_def
        room_removeAllListeners_def upd_room_def)
  moreover have "set (rs_rooms (rs_removeRoom h s)) \<subseteq> set (rs_rooms s)"
    by (auto simp: rs_removeRoom_proj AList.delete_eq)
  ultimately show ?thesis using l by (auto simp: listener_or_gone_def)
qed

lemma disconnectClient_listener:
  assumes cl: "isClosing s c" and wf: "rooms_wf s" and l: "listener_or_gone r s"
  shows "listener_or_gone r (disconnectClient c h s)"
proof -
  let ?s1 = "room_leave h c s"
  let ?s2 = "?s1\<lparr>rs_clientCount := rs_clientCount ?s1 - 1\<rparr>"
  have eq: "disconnectClient c h s =
      (if isEmpty (roomObjs ?s2 h) \<and> \<not> room_keepAlive (roomObjs ?s2 h)
       then rs_removeRoom h ?s2 else ?s2)"
    by (simp add: disconnectClient.simps Let_def)
  have p: "rs_rooms ?s1 = rs_rooms s" "nextRoom ?s1 = nextRoom s"
    "\<And>x. r_id (roomObjs ?s1 x) = r_id (roomObjs s x)"
    "r_terminatedListener (roomObjs ?s1 r) = r_terminatedListener (roomObjs s r)"
    using cl
    by (simp_all add: room_leave_closing client_removeAllListeners_def
        socket_removeAllListeners_def room_emit_def Let_def notify_def store_defs)
  have wf2: "rooms_wf ?s2" using wf by (simp add: rooms_wf_def p)
  have l2: "listener_or_gone r ?s2" using l by (simp add: listener_or_gone_def p)
  show ?thesis unfolding eq using rs_removeRoom_listener[OF wf2 l2] l2 by simp
qed

lemma socket_emit_close_listener:
  assumes cl: "isClosing s k" and wf: "rooms_wf s" and l: "listener_or_gone r s"
  shows "listener_or_gone r (socket_emit_close k s)"
proof (cases "sk_onCloseOnce (sockets s k)")
  case None
  then show ?thesis using l by (simp add: socket_emit_close.simps)
next
  case (Some h)
  let ?s0 = "upd_socket k (\<lambda>sk. sk\<lparr>sk_onCloseOnce := None\<rparr>) s"
  have cl0: "isClosing ?s0 k" using cl by (simp add: isClosing_def upd_socket_def)
  have wf0: "rooms_wf ?s0" using wf by (simp add: rooms_wf_def upd_socket_def)
  have l0: "listener_or_gone r ?s0" using l by (simp add: listener_or_gone_def upd_socket_def)
  show ?thesis
    using disconnectClient_listener[OF cl0 wf0 l0] Some by (simp add: socket_emit_close.simps)
qed

lemma client_disconnect_cases:
  "client_disconnect c s =
     (if isClosing s c then client_removeAllListeners c s
      else client_removeAllListeners c (socket_emit_close c (socket_close c s)))"
  by (simp add: client_disconnect.simps)

lemma client_disconnect_inv: "rs_inv s \<Longrightarrow> rs_inv (client_disconnect c s)"
proof -
  assume inv: "rs_inv s"
  have inv1: "rs_inv (socket_close c s)"
    by (rule rs_inv_frame[OF inv]) (simp_all add: socket_close_def upd_socket_def)
  have cl1: "isClosing (socket_close c s) c"
    by (simp add: isClosing_def socket_close_def upd_socket_def)
  show ?thesis
    using socket_removeAllListeners_inv[OF inv]
      socket_removeAllListeners_inv[OF socket_emit_close_inv[OF inv1 cl1]]
    by (simp add: client_disconnect_cases)
qed

lemma client_disconnect_proj:
  "sk_onCloseOnce (sockets (client_disconnect c s) c) = None"
  "k \<noteq> c \<Longrightarrow> sockets (client_disconnect c s) k = sockets s k"
  "clientObjs (client_disconnect c s) = clientObjs s"
  "nextRoom (client_disconnect c s) = nextRoom s"
proof -
  let ?s1 = "socket_close c s"
  have cl1: "isClosing ?s1 c" by (simp add: isClosing_def socket_close_def upd_socket_def)
  note p = socket_emit_close_closing_proj[OF cl1] socket_emit_close_rooms[OF cl1]
  have s1: "clientObjs ?s1 = clientObjs s" "nextRoom ?s1 = nextRoom s"
    "\<And>k. k \<noteq> c \<Longrightarrow> sockets ?s1 k = sockets s k"
    by (simp_all add: socket_close_def upd_socket_def)
  have rm: "\<And>x. clientObjs (client_removeAllListeners c x) = clientObjs x"
    "\<And>x. nextRoom (client_removeAllListeners c x) = nextRoom x"
    "\<And>x. sk_onCloseOnce (sockets (client_removeAllListeners c x) c) = None"
    "\<And>x k. k \<noteq> c \<Longrightarrow> sockets (client_removeAllListeners c x) k = sockets x k"
    by (simp_all add: client_removeAllListeners_def socket_removeAllListeners_def upd_socket_def)
  show "sk_onCloseOnce (sockets (client_disconnect c s) c) = None"
    by (simp add: client_disconnect_cases rm)
  show "k \<noteq> c \<Longrightarrow> sockets (client_disconnect c s) k = sockets s k"
    by (simp add: client_disconnect_cases rm p s1)
  show "clientObjs (client_disconnect c s) = clientObjs s"
    by (simp add: client_disconnect_cases rm p s1)
  show "nextRoom (client_disconnect c s) = nextRoom s"
    by (simp add: client_disconnect_cases rm p s1)
qed

lemma client_disconnect_listener:
  assumes wf: "rooms_wf s" and l: "listener_or_gone r s"
  shows "listener_or_gone r (client_disconnect c s)"
proof -
  have rm: "\<And>x. listener_or_gone r (client_removeAllListeners c x) = listener_or_gone r x"
    by (simp add: listener_or_gone_def client_removeAllListeners_def
        socket_removeAllListeners_def upd_socket_def)
  let ?s1 = "socket_close c s"
  have cl1: "isClosing ?s1 c" by (simp add: isClosing_def socket_close_def upd_socket_def)
  have wf1: "rooms_wf ?s1" using wf by (simp add: rooms_wf_def socket_close_def upd_socket_def)
  have l1: "listener_or_gone r ?s1"
    using l by (simp add: listener_or_gone_def socket_close_def upd_socket_def)
  show ?thesis
    using l socket_emit_close_listener[OF cl1 wf1 l1] by (simp add: client_disconnect_cases rm)
qed

lemma disconnect_loop:
  assumes "rs_inv s"
    and "\<forall>k. sk_onCloseOnce (sockets s k) = Some r \<longrightarrow> (c_id (clientObjs s k), k) \<in> set entries"
    and "listener_or_gone r s"
  shows "rs_inv (forEach_client client_disconnect r entries s)
       \<and> (\<forall>k. sk_onCloseOnce (sockets (forEach_client client_disconnect r entries s) k) \<noteq> Some r)
       \<and> listener_or_gone r (forEach_client client_disconnect r entries s)
       \<and> nextRoom (forEach_client client_disconnect r entries s) = nextRoom s"
  using assms
proof (induction entries arbitrary: s)
  case Nil
  then show ?case by simp
next
  case (Cons e entries)
  obtain i0 c0 where e: "e = (i0, c0)" by (cases e)
  let ?s1 = "if map_of (r_clients (roomObjs s r)) i0 = Some c0 then client_disconnect c0 s else s"
  have unf: "forEach_client client_disconnect r (e # entries) s =
             forEach_client client_disconnect r entries ?s1"
    using e by simp
  have wf: "rooms_wf s" and hw: "handlers_wf s" using Cons.prems(1) by (simp_all add: rs_inv_def)
  have inv1: "rs_inv ?s1" using client_disconnect_inv[OF Cons.prems(1)] Cons.prems(1) by simp
  have l1: "listener_or_gone r ?s1"
    using client_disconnect_listener[OF wf Cons.prems(3)] Cons.prems(3) by simp
  have n1: "nextRoom ?s1 = nextRoom s" by (simp add: client_disconnect_proj)
  have c1: "clientObjs ?s1 = clientObjs s" by (simp add: client_disconnect_proj)
  have h1: "\<forall>k. sk_onCloseOnce (sockets ?s1 k) = Some r \<longrightarrow> (c_id (clientObjs ?s1 k), k) \<in> set entries"
  proof (intro allI impI)
    fix k assume hk: "sk_onCloseOnce (sockets ?s1 k) = Some r"
    have old: "sk_onCloseOnce (sockets s k) = Some r"
    proof (cases "map_of (r_clients (roomObjs s r)) i0 = Some c0 \<and> k = c0")
      case True
      then show ?thesis using hk by (simp add: client_disconnect_proj)
    next
      case False
      then show ?thesis using hk by (auto simp: client_disconnect_proj split: if_splits)
    qed
    then have inE: "(c_id (clientObjs s k), k) \<in> set (e # entries)" using Cons.prems(2) by simp
    have own: "map_of (r_clients (roomObjs s r)) (c_id (clientObjs s k)) = Some k"
      using hw old by (simp add: handlers_wf_def)
    have "(c_id (clientObjs s k), k) \<noteq> e"
    proof
      assume "(c_id (clientObjs s k), k) = e"
      then have "i0 = c_id (clientObjs s k)" "c0 = k" using e by auto
      then have "sk_onCloseOnce (sockets ?s1 k) = None" using own by (simp add: client_disconnect_proj)
      then show False using hk by simp
    qed
    then show "(c_id (clientObjs ?s1 k), k) \<in> set entries" using inE by (simp add: c1)
  qed
  show ?case unfolding unf using Cons.IH[OF inv1 h1 l1] n1 by simp
qed

lemma terminate_dead:
  assumes inv: "rs_inv s" and reg: "r \<in> snd ` set (rs_rooms s)"
    and lis: "r_terminatedListener (roomObjs s r)"
  shows "dead r (room_terminate r s)"
proof -
  let ?sF = "forEach_client client_disconnect r (r_clients (roomObjs s r)) s"
  have hw: "handlers_wf s" and wf: "rooms_wf s" using inv by (simp_all add: rs_inv_def)
  have all: "\<forall>k. sk_onCloseOnce (sockets s k) = Some r \<longrightarrow>
      (c_id (clientObjs s k), k) \<in> set (r_clients (roomObjs s r))"
    using hw by (auto simp: handlers_wf_def dest: map_of_SomeD)
  have l0: "listener_or_gone r s" using lis by (simp add: listener_or_gone_def)
  have loop: "rs_inv ?sF" "\<forall>k. sk_onCloseOnce (sockets ?sF k) \<noteq> Some r"
    "listener_or_gone r ?sF" "nextRoom ?sF = nextRoom s"
    using disconnect_loop[OF inv all l0] by simp_all
  have lt: "r < nextRoom s" using wf reg by (auto simp: rooms_wf_def)
  let ?s1 = "upd_room r (\<lambda>rm. rm\<lparr>r_emitted := r_emitted rm @ [Terminated]\<rparr>) ?sF"
  have "rooms_wf ?sF" using loop(1) by (simp add: rs_inv_def)
  then have wf1: "rooms_wf ?s1" by (auto simp: rooms_wf_def upd_room_def)
  have l1: "listener_or_gone r ?s1" using loop(3) by (simp add: listener_or_gone_def upd_room_def)
  have p1: "sockets ?s1 = sockets ?sF" "nextRoom ?s1 = nextRoom ?sF" "rs_rooms ?s1 = rs_rooms ?sF"
    by (simp_all add: upd_room_def)
  have eq: "room_terminate r s =
      (if r_terminatedListener (roomObjs ?s1 r) then rs_removeRoom r ?s1 else ?s1)"
    by (simp add: room_terminate_def room_emit_def Let_def)
  show ?thesis
  proof (cases "r_terminatedListener (roomObjs ?s1 r)")
    case True
    have gone: "r \<notin> snd ` set (rs_rooms (rs_removeRoom r ?s1))"
    proof (cases "map_of (rs_rooms ?s1) (r_id (roomObjs ?s1 r))")
      case None
      have "r \<notin> snd ` set (rs_rooms ?s1)"
      proof
        assume "r \<in> snd ` set (rs_rooms ?s1)"
        then obtain i where i: "(i, r) \<in> set (rs_rooms ?s1)" by auto
        then have "r_id (roomObjs ?s1 r) = i" using wf1 by (auto simp: rooms_wf_def)
        then have "map_of (rs_rooms ?s1) (r_id (roomObjs ?s1 r)) = Some r"
          using i wf1 by (simp add: rooms_wf_def)
        then show False using None by simp
      qed
      then show ?thesis using None by (simp add: rs_removeRoom_def)
    next
      case (Some r0)
      show ?thesis using rooms_wf_delete_own[OF wf1, of r] by (simp add: rs_removeRoom_proj)
    qed
    show ?thesis
      unfolding eq using True gone loop(2,4) lt
      by (simp add: dead_def rs_removeRoom_proj p1)
  next
    case False
    then have "r \<notin> snd ` set (rs_rooms ?s1)" using l1 by (simp add: listener_or_gone_def)
    then show ?thesis
      unfolding eq using False loop(2,4) lt by (simp add: dead_def p1)
  qed
qed

lemma shrinks_refl: "shrinks s s"
  by (simp add: shrinks_def)

lemma shrinks_trans:
  assumes a: "shrinks s s1" and b: "shrinks s1 s2"
  shows "shrinks s s2"
proof -
  have c1: "\<And>r. set (r_clients (roomObjs s2 r)) \<subseteq> set (r_clients (roomObjs s r))"
    using a b unfolding shrinks_def by (meson subset_trans)
  have c2: "\<And>r. distinct (map snd (r_clients (roomObjs s r))) \<longrightarrow>
                distinct (map snd (r_clients (roomObjs s2 r)))"
    using a b unfolding shrinks_def by blast
  have c3: "\<And>k. sk_onMessageOnce (sockets s2 k) \<longrightarrow> sk_onMessageOnce (sockets s k)"
    using a b unfolding shrinks_def by blast
  have c4: "nextSocket s2 = nextSocket s" using a b by (simp add: shrinks_def)
  have c5: "\<And>r. listener_or_gone r s \<longrightarrow> listener_or_gone r s2"
    using a b unfolding shrinks_def by blast
  have c6: "\<And>k. \<not> isClosing s2 k \<longrightarrow>
            \<not> isClosing s k \<and> sk_onCloseOnce (sockets s2 k) = sk_onCloseOnce (sockets s k)"
  proof
    fix k assume h: "\<not> isClosing s2 k"
    then have h1: "\<not> isClosing s1 k \<and> sk_onCloseOnce (sockets s2 k) = sk_onCloseOnce (sockets s1 k)"
      using b unfolding shrinks_def by blast
    then have "\<not> isClosing s k \<and> sk_onCloseOnce (sockets s1 k) = sk_onCloseOnce (sockets s k)"
      using a unfolding shrinks_def by blast
    then show "\<not> isClosing s k \<and> sk_onCloseOnce (sockets s2 k) = sk_onCloseOnce (sockets s k)"
      using h1 by simp
  qed
  show ?thesis unfolding shrinks_def using c1 c2 c3 c4 c5 c6 by blast
qed

lemma step_ok_refl: "rs_inv s \<Longrightarrow> step_ok s s"
  by (simp add: step_ok_def shrinks_refl)

lemma step_ok_trans: "step_ok s s1 \<Longrightarrow> step_ok s1 s2 \<Longrightarrow> step_ok s s2"
  using shrinks_trans by (auto simp: step_ok_def)

lemma shrinks_inv2:
  assumes "shrinks s s'" and "clients_distinct s" and "sockets_fresh s" and "listeners_wf s"
    and "open_handlers s"
  shows "clients_distinct s' \<and> sockets_fresh s' \<and> listeners_wf s' \<and> open_handlers s'"
proof -
  have a: "clients_distinct s'" using assms(1,2) by (simp add: shrinks_def clients_distinct_def)
  have c: "listeners_wf s'" using assms(1,4) by (simp add: shrinks_def listeners_wf_def)
  have b: "sockets_fresh s'"
    unfolding sockets_fresh_def
  proof (intro allI conjI impI)
    fix k assume "sk_onMessageOnce (sockets s' k)"
    then have "sk_onMessageOnce (sockets s k)" using assms(1) by (simp add: shrinks_def)
    then show "k < nextSocket s'" using assms(1,3) by (simp add: shrinks_def sockets_fresh_def)
  next
    fix k r assume "sk_onMessageOnce (sockets s' k) \<or> nextSocket s' \<le> k"
    then have "sk_onMessageOnce (sockets s k) \<or> nextSocket s \<le> k"
      using assms(1) by (auto simp: shrinks_def)
    then have "k \<notin> snd ` set (r_clients (roomObjs s r))"
      using assms(3) unfolding sockets_fresh_def by blast
    moreover have "set (r_clients (roomObjs s' r)) \<subseteq> set (r_clients (roomObjs s r))"
      using assms(1) by (simp add: shrinks_def)
    ultimately show "k \<notin> snd ` set (r_clients (roomObjs s' r))" by auto
  qed
  have d: "open_handlers s'"
    unfolding open_handlers_def
  proof (intro allI impI)
    fix r i c assume h: "(i, c) \<in> set (r_clients (roomObjs s' r)) \<and> \<not> isClosing s' c"
    have "set (r_clients (roomObjs s' r)) \<subseteq> set (r_clients (roomObjs s r))"
      using assms(1) by (simp add: shrinks_def)
    then have m: "(i, c) \<in> set (r_clients (roomObjs s r))" using h by auto
    have o: "\<not> isClosing s c \<and> sk_onCloseOnce (sockets s' c) = sk_onCloseOnce (sockets s c)"
      using assms(1) h unfolding shrinks_def by blast
    then have "sk_onCloseOnce (sockets s c) = Some r"
      using assms(5) m unfolding open_handlers_def by blast
    then show "sk_onCloseOnce (sockets s' c) = Some r" using o by simp
  qed
  show ?thesis using a b c d by simp
qed

lemma shrinks_frame:
  assumes "\<And>r. r_clients (roomObjs s' r) = r_clients (roomObjs s r)"
    and "\<And>r. r_terminatedListener (roomObjs s' r) = r_terminatedListener (roomObjs s r)"
    and "rs_rooms s' = rs_rooms s" and "nextSocket s' = nextSocket s"
    and "\<And>k. sk_onMessageOnce (sockets s' k) \<longrightarrow> sk_onMessageOnce (sockets s k)"
    and "\<And>k. \<not> isClosing s' k \<longrightarrow>
            \<not> isClosing s k \<and> sk_onCloseOnce (sockets s' k) = sk_onCloseOnce (sockets s k)"
  shows "shrinks s s'"
  using assms by (simp add: shrinks_def listener_or_gone_def)

lemma rs_removeRoom_shrinks: "rooms_wf s \<Longrightarrow> shrinks s (rs_removeRoom h s)"
proof -
  assume wf: "rooms_wf s"
  have n: "nextSocket (rs_removeRoom h s) = nextSocket s"
    by (simp add: rs_removeRoom_def Let_def clearPingInterval_def notify_def
        room_removeAllListeners_def upd_room_def)
  show ?thesis
    using rs_removeRoom_listener[OF wf, of _ h] n
    by (simp add: shrinks_def rs_removeRoom_proj isClosing_def)
qed

lemma disconnectClient_closing_sock:
  assumes "isClosing s c"
  shows "nextSocket (disconnectClient c r s) = nextSocket s"
    and "sk_onMessageOnce (sockets (disconnectClient c r s) c) \<longrightarrow> sk_onMessageOnce (sockets s c)"
  using assms
  by (simp_all add: disconnectClient.simps room_leave_closing Let_def rs_removeRoom_proj
      rs_removeRoom_def clearPingInterval_def room_removeAllListeners_def
      client_removeAllListeners_def socket_removeAllListeners_def room_emit_def notify_def
      store_defs hasClient_def map_of_eq_None_iff)

lemma socket_emit_close_closing_sock:
  assumes "isClosing s k"
  shows "nextSocket (socket_emit_close k s) = nextSocket s"
    and "sk_onMessageOnce (sockets (socket_emit_close k s) k) \<longrightarrow> sk_onMessageOnce (sockets s k)"
proof -
  let ?s0 = "upd_socket k (\<lambda>sk. sk\<lparr>sk_onCloseOnce := None\<rparr>) s"
  have cl0: "isClosing ?s0 k" using assms by (simp add: isClosing_def upd_socket_def)
  note p = disconnectClient_closing_sock[OF cl0]
  have s0: "nextSocket ?s0 = nextSocket s"
    "sk_onMessageOnce (sockets ?s0 k) = sk_onMessageOnce (sockets s k)"
    by (simp_all add: upd_socket_def)
  show "nextSocket (socket_emit_close k s) = nextSocket s"
    using p(1) s0 by (cases "sk_onCloseOnce (sockets s k)") (simp_all add: socket_emit_close.simps)
  show "sk_onMessageOnce (sockets (socket_emit_close k s) k) \<longrightarrow> sk_onMessageOnce (sockets s k)"
    using p(2) s0 by (cases "sk_onCloseOnce (sockets s k)") (simp_all add: socket_emit_close.simps)
qed

lemma socket_emit_close_shrinks:
  assumes cl: "isClosing s k" and wf: "rooms_wf s"
  shows "shrinks s (socket_emit_close k s)"
proof -
  note p = socket_emit_close_closing_proj[OF cl] socket_emit_close_closing_sock[OF cl]
  have a: "\<And>r. set (r_clients (roomObjs (socket_emit_close k s) r)) \<subseteq> set (r_clients (roomObjs s r))"
    by (simp add: p(8) set_delete_subset)
  have b: "\<And>r. distinct (map snd (r_clients (roomObjs s r))) \<longrightarrow>
               distinct (map snd (r_clients (roomObjs (socket_emit_close k s) r)))"
    by (simp add: p(8) distinct_snd_delete)
  have c: "\<And>k'. sk_onMessageOnce (sockets (socket_emit_close k s) k') \<longrightarrow> sk_onMessageOnce (sockets s k')"
  proof -
    fix k'
    show "sk_onMessageOnce (sockets (socket_emit_close k s) k') \<longrightarrow> sk_onMessageOnce (sockets s k')"
      using p(2)[of k'] p(11) by (cases "k' = k") simp_all
  qed
  have d: "\<And>r. listener_or_gone r s \<longrightarrow> listener_or_gone r (socket_emit_close k s)"
    using socket_emit_close_listener[OF cl wf] by simp
  have e: "\<And>k'. \<not> isClosing (socket_emit_close k s) k' \<longrightarrow>
            \<not> isClosing s k'
            \<and> sk_onCloseOnce (sockets (socket_emit_close k s) k') = sk_onCloseOnce (sockets s k')"
  proof -
    fix k'
    show "\<not> isClosing (socket_emit_close k s) k' \<longrightarrow>
            \<not> isClosing s k'
            \<and> sk_onCloseOnce (sockets (socket_emit_close k s) k') = sk_onCloseOnce (sockets s k')"
      using p(2)[of k'] p(3) cl by (cases "k' = k") (simp_all add: isClosing_def)
  qed
  show ?thesis unfolding shrinks_def using a b c d e p(10) by simp
qed

lemma removeAllListeners_shrinks:
  "isClosing s c \<Longrightarrow> shrinks s (client_removeAllListeners c s)"
  by (rule shrinks_frame)
     (simp_all add: client_removeAllListeners_def socket_removeAllListeners_def upd_socket_def
        isClosing_def)

lemma client_terminate_ok:
  assumes inv: "rs_inv s"
  shows "step_ok s (client_terminate c s)"
proof -
  have i: "rs_inv (client_terminate c s)" by (rule client_terminate_inv[OF inv])
  have "shrinks s (client_terminate c s)"
  proof (cases "isClosing s c")
    case True
    then show ?thesis using removeAllListeners_shrinks[of s c] by (simp add: client_terminate_def)
  next
    case False
    let ?s1 = "socket_terminate c s"
    have f1: "shrinks s ?s1"
      by (rule shrinks_frame) (simp_all add: socket_terminate_def upd_socket_def isClosing_def)
    have cl1: "isClosing ?s1 c" by (simp add: isClosing_def socket_terminate_def upd_socket_def)
    have wf1: "rooms_wf ?s1"
      using inv by (simp add: rs_inv_def rooms_wf_def socket_terminate_def upd_socket_def)
    have f2: "shrinks ?s1 (socket_emit_close c ?s1)"
      by (rule socket_emit_close_shrinks[OF cl1 wf1])
    have cl2: "isClosing (socket_emit_close c ?s1) c"
      using socket_emit_close_closing_proj(3)[OF cl1] cl1 by (simp add: isClosing_def)
    have "shrinks s (client_removeAllListeners c (socket_emit_close c ?s1))"
      using shrinks_trans[OF shrinks_trans[OF f1 f2] removeAllListeners_shrinks[OF cl2]] .
    then show ?thesis using False by (simp add: client_terminate_def)
  qed
  then show ?thesis using i by (simp add: step_ok_def)
qed

lemma client_ping_ok:
  assumes inv: "rs_inv s"
  shows "step_ok s (client_ping c limit s)"
proof -
  let ?s1 = "socket_ping c (upd_client c (\<lambda>cl. cl\<lparr>c_missedPings := c_missedPings cl + 1\<rparr>) s)"
  have "shrinks s ?s1"
    by (rule shrinks_frame)
       (simp_all add: socket_ping_def upd_socket_def upd_client_def isClosing_def)
  moreover have "rs_inv ?s1"
    by (rule rs_inv_frame[OF inv]) (simp_all add: socket_ping_def upd_socket_def upd_client_def)
  ultimately have "step_ok s ?s1" by (simp add: step_ok_def)
  then show ?thesis
    using client_terminate_ok[OF inv] step_ok_refl[OF inv] by (simp add: client_ping_def)
qed

lemma forEach_client_ok:
  assumes "\<And>c s'. rs_inv s' \<Longrightarrow> step_ok s' (f c s')"
  shows "rs_inv s \<Longrightarrow> step_ok s (forEach_client f r entries s)"
proof (induction entries arbitrary: s)
  case Nil
  then show ?case by (simp add: step_ok_refl)
next
  case (Cons e entries)
  obtain i c where e: "e = (i, c)" by (cases e)
  let ?s1 = "if map_of (r_clients (roomObjs s r)) i = Some c then f c s else s"
  have a: "step_ok s ?s1" using assms[OF Cons.prems] step_ok_refl[OF Cons.prems] by simp
  then have "rs_inv ?s1" by (simp add: step_ok_def)
  then have "step_ok ?s1 (forEach_client f r entries ?s1)" by (rule Cons.IH)
  then show ?case using step_ok_trans[OF a] e by simp
qed

lemma pingClients_ok: "rs_inv s \<Longrightarrow> step_ok s (pingClients r s)"
  unfolding pingClients_def by (rule forEach_client_ok) (rule client_ping_ok)

lemma step_ok_inv2: "rs_inv2 s \<Longrightarrow> step_ok s s' \<Longrightarrow> rs_inv2 s'"
  using shrinks_inv2[of s s'] by (simp add: rs_inv2_def step_ok_def)

lemma createRoom_sockets_proj:
  "isClosing (snd (createRoom roomId properties s)) k = isClosing s k"
  by (simp add: isClosing_def createRoom_proj)

lemma createRoom_listener:
  "nextSocket (snd (createRoom roomId properties s)) = nextSocket s"
  "r_terminatedListener (roomObjs (snd (createRoom roomId properties s)) r) =
     (r = nextRoom s \<or> r_terminatedListener (roomObjs s r))"
  by (simp_all add: createRoom_def Let_def notify_def upd_room_def new_room_def)

lemma getRoom_ok:
  assumes inv: "rs_inv s"
  shows "step_ok s (snd (getRoom roomId properties s))"
proof (cases "map_of (rs_rooms s) roomId")
  case (Some r)
  then show ?thesis using step_ok_refl[OF inv] by (simp add: getRoom_def)
next
  case None
  let ?s' = "snd (createRoom roomId properties s)"
  have i: "rs_inv ?s'" by (rule createRoom_inv[OF inv None])
  have l: "\<And>r. listener_or_gone r s \<longrightarrow> listener_or_gone r ?s'"
  proof -
    fix r
    have "snd ` set (rs_rooms ?s') \<subseteq> insert (nextRoom s) (snd ` set (rs_rooms s))"
      using set_update_subset[of roomId "nextRoom s" "rs_rooms s"]
      by (auto simp: createRoom_proj)
    then show "listener_or_gone r s \<longrightarrow> listener_or_gone r ?s'"
      by (auto simp: listener_or_gone_def createRoom_listener)
  qed
  have "shrinks s ?s'"
    unfolding shrinks_def using l
    by (simp add: createRoom_proj createRoom_listener createRoom_sockets_proj)
  then show ?thesis using i None by (simp add: step_ok_def getRoom_def)
qed

lemma connectClient_join_proj:
  assumes g: "getRoom (t_roomId token) (t_roomProperties token) s = (r, s1)"
    and absent: "\<not> hasClient (roomObjs s1 r) (t_clientId token)"
  shows "\<exists>s'. connectClient k token s = Inr s'
      \<and> (\<forall>r'. r_clients (roomObjs s' r') =
            (if r' = r then r_clients (roomObjs s1 r) @ [(t_clientId token, k)]
             else r_clients (roomObjs s1 r')))
      \<and> (\<forall>r'. r_terminatedListener (roomObjs s' r') = r_terminatedListener (roomObjs s1 r'))
      \<and> (\<forall>k'. sk_onMessageOnce (sockets s' k') = sk_onMessageOnce (sockets s1 k'))
      \<and> (\<forall>k'. readyState (sockets s' k') = readyState (sockets s1 k'))
      \<and> (\<forall>k'. sk_onCloseOnce (sockets s' k') =
                  (if k' = k then Some r else sk_onCloseOnce (sockets s1 k')))
      \<and> nextSocket s' = nextSocket s1 \<and> rs_rooms s' = rs_rooms s1"
  using g absent
  by (simp add: connectClient_def Let_def room_join_def new_client_def hasClient_def
      room_emit_def notify_def store_defs update_absent)

lemma connectClient_inv2:
  assumes inv2: "rs_inv2 s"
    and fresh: "\<And>r. k \<notin> snd ` set (r_clients (roomObjs s r))"
    and lt: "k < nextSocket s" and nf: "\<not> sk_onMessageOnce (sockets s k)"
  shows "case connectClient k token s of Inl (message, s') \<Rightarrow> rs_inv2 s' | Inr s' \<Rightarrow> rs_inv2 s'"
proof -
  have inv: "rs_inv s" using inv2 by (simp add: rs_inv2_def)
  obtain r s1 where g: "getRoom (t_roomId token) (t_roomProperties token) s = (r, s1)"
    by (cases "getRoom (t_roomId token) (t_roomProperties token) s")
  have ok: "step_ok s s1" using getRoom_ok[OF inv, of "t_roomId token" "t_roomProperties token"] g by simp
  have i1: "rs_inv2 s1" by (rule step_ok_inv2[OF inv2 ok])
  have sh: "shrinks s s1" using ok by (simp add: step_ok_def)
  have fresh1: "\<And>r'. k \<notin> snd ` set (r_clients (roomObjs s1 r'))"
  proof -
    fix r'
    have "set (r_clients (roomObjs s1 r')) \<subseteq> set (r_clients (roomObjs s r'))"
      using sh by (simp add: shrinks_def)
    then show "k \<notin> snd ` set (r_clients (roomObjs s1 r'))" using fresh[of r'] by auto
  qed
  have lt1: "k < nextSocket s1" using sh lt by (simp add: shrinks_def)
  have nf1: "\<not> sk_onMessageOnce (sockets s1 k)" using sh nf by (auto simp: shrinks_def)
  show ?thesis
  proof (cases "hasClient (roomObjs s1 r) (t_clientId token)")
    case True
    then show ?thesis using g i1 by (simp add: connectClient_def)
  next
    case False
    obtain s' where c: "connectClient k token s = Inr s'"
      and cl: "\<And>r'. r_clients (roomObjs s' r') =
            (if r' = r then r_clients (roomObjs s1 r) @ [(t_clientId token, k)]
             else r_clients (roomObjs s1 r'))"
      and ls: "\<And>r'. r_terminatedListener (roomObjs s' r') = r_terminatedListener (roomObjs s1 r')"
      and fl: "\<And>k'. sk_onMessageOnce (sockets s' k') = sk_onMessageOnce (sockets s1 k')"
      and rd: "\<And>k'. readyState (sockets s' k') = readyState (sockets s1 k')"
      and hd: "\<And>k'. sk_onCloseOnce (sockets s' k') =
                  (if k' = k then Some r else sk_onCloseOnce (sockets s1 k'))"
      and nx: "nextSocket s' = nextSocket s1" and rms: "rs_rooms s' = rs_rooms s1"
      using connectClient_join_proj[OF g False, of k] by blast
    have a: "rs_inv s'" using connectClient_inv[OF inv, of k token] c by simp
    have d1: "clients_distinct s1" and f1: "sockets_fresh s1" and l1: "listeners_wf s1"
      and o1: "open_handlers s1"
      using i1 by (simp_all add: rs_inv2_def)
    have o: "open_handlers s'"
      unfolding open_handlers_def
    proof (intro allI impI)
      fix r' i c assume h: "(i, c) \<in> set (r_clients (roomObjs s' r')) \<and> \<not> isClosing s' c"
      show "sk_onCloseOnce (sockets s' c) = Some r'"
      proof (cases "c = k")
        case True
        then have "r' = r" using h fresh1[of r'] by (force simp: cl split: if_splits)
        then show ?thesis using True by (simp add: hd)
      next
        case False
        then have "(i, c) \<in> set (r_clients (roomObjs s1 r'))"
          using h by (auto simp: cl split: if_splits)
        moreover have "\<not> isClosing s1 c" using h by (simp add: isClosing_def rd)
        ultimately have "sk_onCloseOnce (sockets s1 c) = Some r'"
          using o1 unfolding open_handlers_def by blast
        then show ?thesis using False by (simp add: hd)
      qed
    qed
    have b: "clients_distinct s'"
      unfolding clients_distinct_def
    proof
      fix r'
      show "distinct (map snd (r_clients (roomObjs s' r')))"
        using d1 fresh1[of r] by (simp add: clients_distinct_def cl)
    qed
    have e: "listeners_wf s'"
      using l1 by (simp add: listeners_wf_def listener_or_gone_def ls rms)
    have f: "sockets_fresh s'"
      unfolding sockets_fresh_def
    proof (intro allI conjI impI)
      fix k' assume "sk_onMessageOnce (sockets s' k')"
      then show "k' < nextSocket s'" using f1 by (simp add: sockets_fresh_def fl nx)
    next
      fix k' r' assume h: "sk_onMessageOnce (sockets s' k') \<or> nextSocket s' \<le> k'"
      then have ne: "k' \<noteq> k" using nf1 lt1 by (auto simp: fl nx)
      have "k' \<notin> snd ` set (r_clients (roomObjs s1 r'))"
        and "k' \<notin> snd ` set (r_clients (roomObjs s1 r))"
        using h f1 unfolding sockets_fresh_def fl nx by blast+
      then show "k' \<notin> snd ` set (r_clients (roomObjs s' r'))" using ne by (simp add: cl)
    qed
    show ?thesis using a b e f o c by (simp add: rs_inv2_def)
  qed
qed

lemma auth_failed_ok: "rs_inv s \<Longrightarrow> step_ok s (auth_failed k message s)"
proof -
  assume inv: "rs_inv s"
  have "shrinks s (auth_failed k message s)"
    by (rule shrinks_frame)
       (simp_all add: auth_failed_def socket_close_def socket_send_def upd_socket_def
          isClosing_def)
  then show ?thesis using auth_failed_inv[OF inv] by (simp add: step_ok_def)
qed

lemma auth_failed_inv2:
  assumes "rs_inv2 s"
  shows "rs_inv2 (auth_failed k message s)"
proof -
  have "rs_inv s" using assms by (simp add: rs_inv2_def)
  then have "step_ok s (auth_failed k message s)" by (rule auth_failed_ok)
  then show ?thesis by (rule step_ok_inv2[OF assms])
qed

lemma handleClient_inv2:
  assumes inv2: "rs_inv2 s"
    and fresh: "\<And>r. k \<notin> snd ` set (r_clients (roomObjs s r))"
    and lt: "k < nextSocket s" and nf: "\<not> sk_onMessageOnce (sockets s k)"
  shows "rs_inv2 (handleClient verify k data s)"
proof (cases "authenticate verify data s")
  case (Inl message)
  then show ?thesis using auth_failed_inv2[OF inv2] by (simp add: handleClient_def)
next
  case (Inr token)
  note c = connectClient_inv2[OF inv2 fresh lt nf, of token]
  show ?thesis
  proof (cases "connectClient k token s")
    case (Inl e)
    obtain message s' where e: "e = (message, s')" by (cases e)
    then have "rs_inv2 s'" using c Inl by simp
    then show ?thesis using Inr Inl e auth_failed_inv2 by (simp add: handleClient_def)
  next
    case r: (Inr s')
    then have "rs_inv2 s'" using c by simp
    then show ?thesis using Inr r by (simp add: handleClient_def)
  qed
qed

lemma frame_ok:
  assumes "rs_inv s'"
    and "\<And>r. r_clients (roomObjs s' r) = r_clients (roomObjs s r)"
    and "\<And>r. r_terminatedListener (roomObjs s' r) = r_terminatedListener (roomObjs s r)"
    and "rs_rooms s' = rs_rooms s" and "nextSocket s' = nextSocket s"
    and "\<And>k. sk_onMessageOnce (sockets s' k) \<longrightarrow> sk_onMessageOnce (sockets s k)"
    and "\<And>k. \<not> isClosing s' k \<longrightarrow>
            \<not> isClosing s k \<and> sk_onCloseOnce (sockets s' k) = sk_onCloseOnce (sockets s k)"
  shows "step_ok s s'"
  using assms(1) shrinks_frame[OF assms(2-7)] by (simp add: step_ok_def)

lemma accept_inv2:
  assumes inv2: "rs_inv2 s"
    and inv': "rs_inv ((upd_socket (nextSocket s) (\<lambda>sk. sk\<lparr>sk_onMessageOnce := True\<rparr>) s)
                 \<lparr>nextSocket := Suc (nextSocket s)\<rparr>)"
  shows "rs_inv2 ((upd_socket (nextSocket s) (\<lambda>sk. sk\<lparr>sk_onMessageOnce := True\<rparr>) s)
                 \<lparr>nextSocket := Suc (nextSocket s)\<rparr>)"
proof -
  let ?s' = "(upd_socket (nextSocket s) (\<lambda>sk. sk\<lparr>sk_onMessageOnce := True\<rparr>) s)
                 \<lparr>nextSocket := Suc (nextSocket s)\<rparr>"
  have d: "clients_distinct s" and f: "sockets_fresh s" and l: "listeners_wf s"
    and o: "open_handlers s"
    using inv2 by (simp_all add: rs_inv2_def)
  have o': "open_handlers ?s'"
    using o by (auto simp: open_handlers_def isClosing_def upd_socket_def)
  have p: "roomObjs ?s' = roomObjs s" "rs_rooms ?s' = rs_rooms s"
    "nextSocket ?s' = Suc (nextSocket s)"
    "\<And>k. sk_onMessageOnce (sockets ?s' k) = (k = nextSocket s \<or> sk_onMessageOnce (sockets s k))"
    by (simp_all add: upd_socket_def)
  have a: "clients_distinct ?s'" using d by (simp add: clients_distinct_def p)
  have b: "listeners_wf ?s'" using l by (simp add: listeners_wf_def listener_or_gone_def p)
  have c: "sockets_fresh ?s'"
    unfolding sockets_fresh_def p
  proof (intro allI conjI impI)
    fix k assume "k = nextSocket s \<or> sk_onMessageOnce (sockets s k)"
    then show "k < Suc (nextSocket s)" using f by (auto simp: sockets_fresh_def less_Suc_eq)
  next
    fix k r assume "(k = nextSocket s \<or> sk_onMessageOnce (sockets s k)) \<or> Suc (nextSocket s) \<le> k"
    then have "sk_onMessageOnce (sockets s k) \<or> nextSocket s \<le> k" by auto
    then show "k \<notin> snd ` set (r_clients (roomObjs s r))"
      using f unfolding sockets_fresh_def by blast
  qed
  show ?thesis using inv' a b c o' by (simp add: rs_inv2_def)
qed

lemma rs_step_inv2:
  assumes inv2: "rs_inv2 s" and env: "env_input input"
  shows "rs_inv2 (rs_step verify s input)"
proof -
  have inv: "rs_inv s" using inv2 by (simp add: rs_inv2_def)
  have i': "rs_inv (rs_step verify s input)" by (rule rs_step_inv[OF inv env])
  show ?thesis
  proof (cases input)
    case WsConnection
    show ?thesis
    proof (cases "rs_listening s")
      case True
      then show ?thesis using accept_inv2[OF inv2] i' WsConnection by simp
    next
      case False
      then show ?thesis using inv2 WsConnection by simp
    qed
  next
    case (SockMessage k data)
    show ?thesis
    proof (cases "readyState (sockets s k) = OPEN \<and> sk_onMessageOnce (sockets s k)")
      case False
      then show ?thesis using inv2 SockMessage by auto
    next
      case True
      let ?s0 = "upd_socket k (\<lambda>sk. sk\<lparr>sk_onMessageOnce := False\<rparr>) s"
      have inv0: "rs_inv ?s0"
        by (rule rs_inv_frame[OF inv]) (simp_all add: upd_socket_def)
      have "step_ok s ?s0"
        by (rule frame_ok[OF inv0]) (simp_all add: upd_socket_def isClosing_def)
      then have i0: "rs_inv2 ?s0" by (rule step_ok_inv2[OF inv2])
      have f: "sockets_fresh s" using inv2 by (simp add: rs_inv2_def)
      have fresh: "\<And>r. k \<notin> snd ` set (r_clients (roomObjs ?s0 r))"
        using f True by (simp add: sockets_fresh_def upd_socket_def)
      have lt: "k < nextSocket ?s0" using f True by (simp add: sockets_fresh_def upd_socket_def)
      have nf: "\<not> sk_onMessageOnce (sockets ?s0 k)" by (simp add: upd_socket_def)
      show ?thesis
        using handleClient_inv2[OF i0 fresh lt nf, of verify data] True SockMessage by simp
    qed
  next
    case (SockPong k)
    have "step_ok s (client_on_pong k s)"
      by (rule frame_ok)
         (rule rs_inv_frame[OF inv], simp_all add: client_on_pong_def upd_client_def isClosing_def)
    then have "rs_inv2 (client_on_pong k s)" by (rule step_ok_inv2[OF inv2])
    then show ?thesis using SockPong inv2 by simp
  next
    case (SockError k)
    have "rs_inv2 (client_terminate k s)"
      by (rule step_ok_inv2[OF inv2 client_terminate_ok[OF inv]])
    then show ?thesis using SockError inv2 by simp
  next
    case (SockClosing k)
    let ?s0 = "upd_socket k (\<lambda>sk. sk\<lparr>readyState := CLOSING\<rparr>) s"
    have "step_ok s ?s0"
      by (rule frame_ok)
         (rule rs_inv_frame[OF inv], simp_all add: upd_socket_def isClosing_def)
    then have "rs_inv2 ?s0" by (rule step_ok_inv2[OF inv2])
    then show ?thesis using SockClosing inv2 by simp
  next
    case (SockClosed k)
    let ?s0 = "upd_socket k (\<lambda>sk. sk\<lparr>readyState := CLOSED\<rparr>) s"
    have inv0: "rs_inv ?s0"
      by (rule rs_inv_frame[OF inv]) (simp_all add: upd_socket_def)
    have ok0: "step_ok s ?s0"
      by (rule frame_ok[OF inv0]) (simp_all add: upd_socket_def isClosing_def)
    have cl0: "isClosing ?s0 k" by (simp add: isClosing_def upd_socket_def)
    have wf0: "rooms_wf ?s0" using inv0 by (simp add: rs_inv_def)
    have "step_ok ?s0 (socket_emit_close k ?s0)"
      using socket_emit_close_inv[OF inv0 cl0] socket_emit_close_shrinks[OF cl0 wf0]
      by (simp add: step_ok_def)
    then have "rs_inv2 (socket_emit_close k ?s0)"
      using step_ok_inv2[OF inv2 step_ok_trans[OF ok0]] by simp
    then show ?thesis using SockClosed inv2 by simp
  next
    case (RoomTick r)
    have "rs_inv2 (pingClients r s)"
      by (rule step_ok_inv2[OF inv2 pingClients_ok[OF inv]])
    then show ?thesis using RoomTick inv2 by simp
  next
    case PingTick
    have "step_ok s (sendPing False s)"
      by (rule frame_ok) (rule rs_inv_frame[OF inv], simp_all add: sendPing_def isClosing_def)
    then have "rs_inv2 (sendPing False s)" by (rule step_ok_inv2[OF inv2])
    then show ?thesis using PingTick inv2 by simp
  next
    case (BusRooms replyTo)
    have "step_ok s (sendRooms replyTo s)"
      by (rule frame_ok) (rule rs_inv_frame[OF inv], simp_all add: sendRooms_def Let_def isClosing_def)
    then have "rs_inv2 (sendRooms replyTo s)" by (rule step_ok_inv2[OF inv2])
    then show ?thesis using BusRooms by simp
  next
    case (BusBroadcastRs message)
    have "step_ok s (s\<lparr>rs_emitted := rs_emitted s @ [RsBroadcast message]\<rparr>)"
      by (rule frame_ok) (rule rs_inv_frame[OF inv], simp_all add: isClosing_def)
    then have "rs_inv2 (s\<lparr>rs_emitted := rs_emitted s @ [RsBroadcast message]\<rparr>)"
      by (rule step_ok_inv2[OF inv2])
    then show ?thesis using BusBroadcastRs by simp
  next
    case (CallTerminate r)
    then show ?thesis using env by simp
  next
    case CallStop
    then show ?thesis using env by simp
  qed
qed

lemma rs_run_inv2:
  "rs_inv2 s \<Longrightarrow> list_all env_input inputs \<Longrightarrow> rs_inv2 (rs_run verify s inputs)"
  unfolding rs_run_def
  by (induction inputs arbitrary: s) (simp_all add: rs_step_inv2)

lemma new_room_server_inv2: "rs_inv2 (new_room_server publicUrl secret options)"
  using new_room_server_inv[of publicUrl secret options]
  by (simp add: rs_inv2_def clients_distinct_def sockets_fresh_def listeners_wf_def
      open_handlers_def listener_or_gone_def new_room_server_def new_room_def)

lemma snd_distinct_key:
  "distinct (map snd xs) \<Longrightarrow> (a, c) \<in> set xs \<Longrightarrow> (b, c) \<in> set xs \<Longrightarrow> a = b"
  by (induction xs) force+

lemma ping_gone:
  "map_of (r_clients (roomObjs s r)) i = None \<Longrightarrow>
   map_of (r_clients (roomObjs (client_ping c' lim s) r)) i = None"
  by (simp add: ping_clients delete_conv')

lemma ping_emitted_ext:
  "\<exists>more. r_emitted (roomObjs (client_ping c' lim s) r) = r_emitted (roomObjs s r) @ more"
  by (simp add: ping_emitted)

lemma ping_evicts:
  assumes hw: "handlers_wf s" and d: "distinct (map snd (r_clients (roomObjs s r)))"
    and mem: "map_of (r_clients (roomObjs s r)) i = Some c"
    and t: "ping_terminates s c lim" and h: "sk_onCloseOnce (sockets s c) = Some r"
  shows "map_of (r_clients (roomObjs (client_ping c lim s) r)) i = None"
    and "r_emitted (roomObjs (client_ping c lim s) r) = r_emitted (roomObjs s r) @ [Left c]"
proof -
  have own: "map_of (r_clients (roomObjs s r)) (c_id (clientObjs s c)) = Some c"
    using hw h by (simp add: handlers_wf_def)
  have i: "i = c_id (clientObjs s c)"
    using snd_distinct_key[OF d map_of_SomeD[OF mem] map_of_SomeD[OF own]] .
  show "map_of (r_clients (roomObjs (client_ping c lim s) r)) i = None"
    using t h i by (simp add: ping_clients delete_conv')
  show "r_emitted (roomObjs (client_ping c lim s) r) = r_emitted (roomObjs s r) @ [Left c]"
    using t h own by (simp add: ping_emitted hasClient_def)
qed

lemma evicting_step:
  assumes inv: "rs_inv s" and d: "distinct (map snd (r_clients (roomObjs s r)))"
    and de: "distinct (map snd ((i0, c0) # entries))"
    and ev: "evicting r i c E0 lim ((i0, c0) # entries) s"
  shows "evicting r i c E0 lim entries
           (if map_of (r_clients (roomObjs s r)) i0 = Some c0 then client_ping c0 lim s else s)"
proof -
  let ?s1 = "if map_of (r_clients (roomObjs s r)) i0 = Some c0 then client_ping c0 lim s else s"
  have hw: "handlers_wf s" using inv by (simp add: rs_inv_def)
  obtain evs where e: "r_emitted (roomObjs s r) = E0 @ evs"
    and cases: "Left c \<in> set evs \<and> map_of (r_clients (roomObjs s r)) i = None
           \<or> (i, c) \<in> set ((i0, c0) # entries) \<and> map_of (r_clients (roomObjs s r)) i = Some c
             \<and> ping_terminates s c lim \<and> sk_onCloseOnce (sockets s c) = Some r"
    using ev unfolding evicting_def by blast
  obtain more where m: "r_emitted (roomObjs ?s1 r) = E0 @ evs @ more"
    using ping_emitted_ext[of c0 lim s r] e by (cases "map_of (r_clients (roomObjs s r)) i0 = Some c0") auto
  from cases show ?thesis
  proof
    assume g: "Left c \<in> set evs \<and> map_of (r_clients (roomObjs s r)) i = None"
    then have "map_of (r_clients (roomObjs ?s1 r)) i = None" using ping_gone by simp
    moreover have "Left c \<in> set (evs @ more)" using g by simp
    ultimately show ?thesis unfolding evicting_def using m by blast
  next
    assume p: "(i, c) \<in> set ((i0, c0) # entries) \<and> map_of (r_clients (roomObjs s r)) i = Some c
             \<and> ping_terminates s c lim \<and> sk_onCloseOnce (sockets s c) = Some r"
    show ?thesis
    proof (cases "c0 = c")
      case True
      have "(i0, c) \<in> set ((i0, c0) # entries)" using True by simp
      then have i0: "i0 = i" using snd_distinct_key[OF de _ conjunct1[OF p]] by simp
      have s1: "?s1 = client_ping c lim s" using True i0 p by simp
      have "map_of (r_clients (roomObjs ?s1 r)) i = None"
        and "r_emitted (roomObjs ?s1 r) = E0 @ evs @ [Left c]"
        unfolding s1 using ping_evicts[OF hw d, of i c lim] p e by simp_all
      then show ?thesis unfolding evicting_def by (intro exI[of _ "evs @ [Left c]"]) simp
    next
      case False
      then have in_rest: "(i, c) \<in> set entries" using p by auto
      have mem1: "map_of (r_clients (roomObjs ?s1 r)) i = Some c"
        using ping_member_frame[OF hw _ conjunct1[OF conjunct2[OF p]], of c0 lim] False p by auto
      have same: "sockets ?s1 c = sockets s c \<and> clientObjs ?s1 c = clientObjs s c"
        using ping_others[of c c0 lim s] False by auto
      then have "ping_terminates ?s1 c lim" and "sk_onCloseOnce (sockets ?s1 c) = Some r"
        using p ping_terminates_cong[of ?s1 c s lim] by simp_all
      then show ?thesis unfolding evicting_def using m in_rest mem1 by blast
    qed
  qed
qed

lemma forEach_evicts:
  assumes "rs_inv s" and "distinct (map snd (r_clients (roomObjs s r)))"
    and "distinct (map snd entries)"
    and "missedPingsLimit (r_options (roomObjs s r)) = lim"
    and "evicting r i c E0 lim entries s"
  shows "evicting r i c E0 lim []
           (forEach_client (\<lambda>c s'. client_ping c (missedPingsLimit (r_options (roomObjs s' r))) s')
              r entries s)"
  using assms
proof (induction entries arbitrary: s)
  case Nil
  then show ?case by (auto simp: evicting_def)
next
  case (Cons e entries)
  obtain i0 c0 where e: "e = (i0, c0)" by (cases e)
  let ?s1 = "if map_of (r_clients (roomObjs s r)) i0 = Some c0 then client_ping c0 lim s else s"
  have unf: "forEach_client (\<lambda>c s'. client_ping c (missedPingsLimit (r_options (roomObjs s' r))) s')
              r (e # entries) s =
             forEach_client (\<lambda>c s'. client_ping c (missedPingsLimit (r_options (roomObjs s' r))) s')
              r entries ?s1"
    using e Cons.prems(4) by simp
  have inv1: "rs_inv ?s1" using Cons.prems(1) client_ping_inv by simp
  have d1: "distinct (map snd (r_clients (roomObjs ?s1 r)))"
    using Cons.prems(2) ping_distinct_snd by simp
  have de1: "distinct (map snd entries)" using Cons.prems(3) by simp
  have l1: "missedPingsLimit (r_options (roomObjs ?s1 r)) = lim"
    using Cons.prems(4) by (simp add: ping_options)
  have ev1: "evicting r i c E0 lim entries ?s1"
    using evicting_step[OF Cons.prems(1,2)] Cons.prems(3,5) e by simp
  show ?case unfolding unf using Cons.IH[OF inv1 d1 de1 l1 ev1] .
qed

lemma tick_evicts:
  assumes inv2: "rs_inv2 s" and mem: "map_of (r_clients (roomObjs s r)) i = Some c"
    and t: "ping_terminates s c (missedPingsLimit (r_options (roomObjs s r)))"
  shows "map_of (r_clients (roomObjs (pingClients r s) r)) i = None
       \<and> (\<exists>evs. r_emitted (roomObjs (pingClients r s) r) = r_emitted (roomObjs s r) @ evs
                 \<and> Left c \<in> set evs)"
proof -
  let ?lim = "missedPingsLimit (r_options (roomObjs s r))"
  have inv: "rs_inv s" and d: "distinct (map snd (r_clients (roomObjs s r)))"
    and oh: "open_handlers s"
    using inv2 by (simp_all add: rs_inv2_def clients_distinct_def)
  have cin: "(i, c) \<in> set (r_clients (roomObjs s r))" using mem by (rule map_of_SomeD)
  have "\<not> isClosing s c" using t by (simp add: ping_terminates_def)
  then have h: "sk_onCloseOnce (sockets s c) = Some r"
    using oh cin unfolding open_handlers_def by blast
  have start: "evicting r i c (r_emitted (roomObjs s r)) ?lim (r_clients (roomObjs s r)) s"
    unfolding evicting_def using cin mem t h by (intro exI[of _ "[]"]) simp
  have "evicting r i c (r_emitted (roomObjs s r)) ?lim [] (pingClients r s)"
    unfolding pingClients_def by (rule forEach_evicts[OF inv d d _ start]) simp
  then show ?thesis by (auto simp: evicting_def)
qed







text \<open>
  Claim C2, as amended. Let \<open>generateToken\<close> be called with a secret and token options whose
  \<open>expiresIn\<close> (by default \<open>1m\<close>) the signer reads as a lifetime, and let the string it
  returns be read back by the verifier as the token that was signed. Then \<open>jwt.verify\<close>
  with the same secret and the subject \<open>joinRoom\<close> succeeds exactly while the lifetime has
  not elapsed, and what it returns has the six fields \<open>publicUrl\<close>, \<open>roomId\<close>,
  \<open>roomProperties\<close>, \<open>clientId\<close>, \<open>clientProperties\<close> and \<open>joinOnly\<close> of the options,
  unchanged. \<open>_authenticate\<close> of a room server with that secret then returns this payload
  when the \<open>publicUrl\<close> is its own, and rejects the token once it has expired. With
  another secret or another subject the verification fails.
\<close>

theorem token_round_trip:
  assumes lifetime: "span (expiry_of options) = Some lifetime"
    and token: "generateToken span encode issued secret options = Some token"
    and codec: "\<And>t. encode t = token \<Longrightarrow> decode token = Some t"
  shows "jwt_verify_at decode now token secret ''joinRoom'' =
           (if now < issued + lifetime then Some (options\<lparr>t_expiresIn := None\<rparr>) else None)
       \<and> six_fields (options\<lparr>t_expiresIn := None\<rparr>) = six_fields options
       \<and> (rs_tokenSecret s = secret \<longrightarrow>
            authenticate (jwt_verify_at decode now) token s =
              (if issued + lifetime \<le> now then Inl ''The authentication token is invalid.''
               else if t_publicUrl options \<noteq> rs_publicUrl s
               then Inl ''The authentication token is intended for another room server.''
               else Inr (options\<lparr>t_expiresIn := None\<rparr>)))
       \<and> (secret' \<noteq> secret \<or> subject \<noteq> ''joinRoom'' \<longrightarrow>
            jwt_verify_at decode now token secret' subject = None)"
proof -
  let ?payload = "options\<lparr>t_expiresIn := None\<rparr>"
  let ?t = "\<lparr>jw_payload = ?payload, jw_subject = ''joinRoom'', jw_issued = issued,
             jw_expires = issued + lifetime, jw_signedWith = secret\<rparr>"
  have p: "\<lparr>t_publicUrl = t_publicUrl options,
                     t_roomId = t_roomId options,
                     t_roomProperties = t_roomProperties options,
                     t_clientId = t_clientId options,
                     t_clientProperties = t_clientProperties options,
                     t_joinOnly = t_joinOnly options,
                     t_expiresIn = None\<rparr> = ?payload"
    by simp
  have "generateToken span encode issued secret options = Some (encode ?t)"
    using lifetime unfolding generateToken_def Let_def p by (simp add: jwt_sign_def)
  then have "encode ?t = token" using token by simp
  then have dec: "decode token = Some ?t" by (rule codec)
  have v: "jwt_verify_at decode now token secret ''joinRoom'' =
      (if now < issued + lifetime then Some ?payload else None)"
    using dec by (simp add: jwt_verify_at_def)
  have six: "six_fields ?payload = six_fields options" by (simp add: six_fields_def)
  have a: "rs_tokenSecret s = secret \<longrightarrow>
      authenticate (jwt_verify_at decode now) token s =
        (if issued + lifetime \<le> now then Inl ''The authentication token is invalid.''
         else if t_publicUrl options \<noteq> rs_publicUrl s
         then Inl ''The authentication token is intended for another room server.''
         else Inr ?payload)"
    using v by (auto simp: authenticate_def)
  have w: "secret' \<noteq> secret \<or> subject \<noteq> ''joinRoom'' \<longrightarrow>
      jwt_verify_at decode now token secret' subject = None"
    using dec by (auto simp: jwt_verify_at_def)
  show ?thesis using v six a w by blast
qed

theorem token_round_trip_witness:
  "ex_span (expiry_of (ex_token ''rs-a'' ''R1'' ''C1'' None)) = Some 60
   \<and> generateToken ex_span ex_encode 0 ''defaultSecret'' (ex_token ''rs-a'' ''R1'' ''C1'' None)
       = Some ''tok-C1''
   \<and> jwt_verify_at ex_decode 59 ''tok-C1'' ''defaultSecret'' ''joinRoom''
       = Some (ex_token ''rs-a'' ''R1'' ''C1'' None)
   \<and> authenticate (jwt_verify_at ex_decode 59) ''tok-C1'' ex_rs
       = Inr (ex_token ''rs-a'' ''R1'' ''C1'' None)
   \<and> jwt_verify_at ex_decode 59 ''tok-C1'' ''otherSecret'' ''joinRoom'' = None"
proof -
  have l: "ex_span (expiry_of (ex_token ''rs-a'' ''R1'' ''C1'' None)) = Some 60"
    by (simp add: ex_span_def expiry_of_def ex_token_def)
  have g: "generateToken ex_span ex_encode 0 ''defaultSecret'' (ex_token ''rs-a'' ''R1'' ''C1'' None)
       = Some ''tok-C1''"
    by (simp add: generateToken_def jwt_sign_def ex_span_def ex_encode_def ex_jwt_def ex_token_def
        expiry_of_def Let_def)
  have c: "\<And>t. ex_encode t = ''tok-C1'' \<Longrightarrow> ex_decode ''tok-C1'' = Some t"
    by (simp add: ex_encode_def ex_decode_def split: if_splits)
  have s: "rs_tokenSecret ex_rs = ''defaultSecret''" "rs_publicUrl ex_rs = ''rs-a''"
    by (simp_all add: ex_rs_def new_room_server_def)
  have u: "t_publicUrl (ex_token ''rs-a'' ''R1'' ''C1'' None) = ''rs-a''"
    "(ex_token ''rs-a'' ''R1'' ''C1'' None)\<lparr>t_expiresIn := None\<rparr> = ex_token ''rs-a'' ''R1'' ''C1'' None"
    by (simp_all add: ex_token_def)
  note w = token_round_trip[where span=ex_span and encode=ex_encode and decode=ex_decode
      and options="ex_token ''rs-a'' ''R1'' ''C1'' None" and lifetime=60 and issued=0
      and secret="''defaultSecret''" and token="''tok-C1''" and now=59 and s=ex_rs
      and secret'="''otherSecret''" and subject="''joinRoom''", OF l g c]
  have a: "jwt_verify_at ex_decode 59 ''tok-C1'' ''defaultSecret'' ''joinRoom''
       = Some (ex_token ''rs-a'' ''R1'' ''C1'' None)"
    using w u by simp
  have b: "authenticate (jwt_verify_at ex_decode 59) ''tok-C1'' ex_rs
       = Inr (ex_token ''rs-a'' ''R1'' ''C1'' None)"
    using w s u by simp
  have d: "jwt_verify_at ex_decode 59 ''tok-C1'' ''otherSecret'' ''joinRoom'' = None"
    using w by simp
  show ?thesis using l g a b d by (intro conjI)
qed

text \<open>
  The claim as stated fails once the token has expired: the token that \<open>generateToken\<close>
  makes at time 0 with the default expiry, verified sixty seconds later with the same secret
  and subject, is refused.
\<close>

theorem token_round_trip_expired_counterexample:
  "generateToken ex_span ex_encode 0 ''defaultSecret'' (ex_token ''rs-a'' ''R1'' ''C1'' None)
     = Some ''tok-C1''
   \<and> jwt_verify_at ex_decode 60 ''tok-C1'' ''defaultSecret'' ''joinRoom'' = None
   \<and> authenticate (jwt_verify_at ex_decode 60) ''tok-C1'' ex_rs
       = Inl ''The authentication token is invalid.''"
  by (simp add: generateToken_def jwt_sign_def jwt_verify_at_def authenticate_def ex_span_def
      ex_encode_def ex_decode_def ex_jwt_def ex_token_def ex_rs_def new_room_server_def
      expiry_of_def Let_def)

end
